theory Spec2Isabelle
  imports Main
begin

section \<open>Data model (app/models)\<close>

text \<open>
  The change-request lifecycle and its SLA monitor, embedded from
  \<^verbatim>\<open>app/models/change_request.py\<close>, \<^verbatim>\<open>app/models/user.py\<close>,
  \<^verbatim>\<open>app/models/role.py\<close> and \<^verbatim>\<open>app/services/sla_monitor.py\<close>.

  A Python \<^verbatim>\<open>datetime\<close> is a number of microseconds together with the information
  whether it carries a \<^verbatim>\<open>tzinfo\<close>. For an aware value the number is the UTC instant
  since the epoch; for a naive value it is the wall-clock reading taken as if it were UTC
  (what \<^verbatim>\<open>replace(tzinfo=timezone.utc)\<close> yields). A \<^verbatim>\<open>timedelta\<close> is an
  \<^typ>\<open>int\<close> of microseconds. \<^verbatim>\<open>total_seconds()\<close> divides that integer by
  \<open>10\<^sup>6\<close> with correct rounding, so comparing it with \<open>86400\<close> or \<open>0\<close>
  agrees with comparing the integer with \<open>86400 * 10\<^sup>6\<close> or \<open>0\<close>.
\<close>

datatype CRStatus =
  DRAFT | SUBMITTED | PENDING_APPROVAL | APPROVED | REJECTED
  | IN_PROGRESS | IMPLEMENTED | CLOSED | ROLLED_BACK

record pydatetime =
  micros :: int
  tz_aware :: bool

datatype error = TypeError | AttributeError

definition utc_now :: "int \<Rightarrow> pydatetime" where
  "utc_now t = \<lparr>micros = t, tz_aware = True\<rparr>"

definition second_us :: int where
  "second_us = 1000000"

definition day_us :: int where
  "day_us = 86400 * second_us"

text \<open>\<^verbatim>\<open>dt.replace(hour=23, minute=59, second=59)\<close>: date and microsecond are kept.\<close>

definition replace_235959 :: "pydatetime \<Rightarrow> pydatetime" where
  "replace_235959 d =
     d\<lparr>micros := (micros d div day_us) * day_us + 86399 * second_us + micros d mod second_us\<rparr>"

record Role =
  role_name :: string
  permissions :: "string list"

record ProjectMembership =
  m_project_id :: int
  m_is_active :: bool

record User =
  user_id :: int
  role :: "Role option"
  project_memberships :: "ProjectMembership list"

record Project =
  proj_id :: int
  created_by_id :: "int option"

text \<open>
  The columns of \<^verbatim>\<open>ChangeRequest\<close> that the modelled methods read or write. The
  free-text payload columns (title, description, justification, ...) are touched by none
  of them and are left out.
\<close>

record ChangeRequest =
  cr_id :: int
  cr_number :: string
  project :: Project
  status :: CRStatus
  requester_id :: int
  approver_id :: "int option"
  implementer_id :: "int option"
  approved_date :: "pydatetime option"
  implementation_date :: "pydatetime option"
  implementation_deadline :: "pydatetime option"
  closed_date :: "pydatetime option"
  sla_deadline :: "pydatetime option"
  is_sla_breached :: bool
  sla_warning_sent :: bool
  rollback_reason :: "string option"
  rolled_back_at :: "pydatetime option"
  rolled_back_by_id :: "int option"
  approval_comments :: "string option"
  rejection_reason :: "string option"
  closure_comments :: "string option"
  closure_notes :: "string option"
  closed_by_id :: "int option"
  submitted_at :: "pydatetime option"

section \<open>Roles and permissions (role.py, user.py)\<close>

definition role_has_permission :: "Role \<Rightarrow> string \<Rightarrow> bool" where
  "role_has_permission r permission_name = (\<exists>p \<in> set (permissions r). p = permission_name)"

definition has_permission :: "User \<Rightarrow> string \<Rightarrow> bool" where
  "has_permission u permission =
     (case role u of None \<Rightarrow> False | Some r \<Rightarrow> role_has_permission r permission)"

definition has_role :: "User \<Rightarrow> string \<Rightarrow> bool" where
  "has_role u name = (case role u of None \<Rightarrow> False | Some r \<Rightarrow> role_name r = name)"

definition is_admin :: "User \<Rightarrow> bool" where
  "is_admin u = has_role u ''admin''"

definition has_project_access :: "User \<Rightarrow> Project \<Rightarrow> bool" where
  "has_project_access u p =
     (if is_admin u then True
      else (\<exists>m \<in> set (project_memberships u). m_project_id m = proj_id p \<and> m_is_active m))"

text \<open>
  \<^verbatim>\<open>str.lower()\<close> on the characters of an Isabelle string: the letters A to Z
  move to a to z, every other character stays.
\<close>

definition ascii_uppercase :: string where
  "ascii_uppercase = ''ABCDEFGHIJKLMNOPQRSTUVWXYZ''"

definition ascii_lowercase :: string where
  "ascii_lowercase = ''abcdefghijklmnopqrstuvwxyz''"

definition lower_char :: "char \<Rightarrow> char" where
  "lower_char c =
     (case map_of (zip ascii_uppercase ascii_lowercase) c of Some l \<Rightarrow> l | None \<Rightarrow> c)"

definition lower :: "string \<Rightarrow> string" where
  "lower s = map lower_char s"

definition implementer_visible :: "CRStatus list" where
  "implementer_visible = [APPROVED, IN_PROGRESS, IMPLEMENTED, CLOSED, ROLLED_BACK]"

definition can_access_cr :: "User \<Rightarrow> ChangeRequest \<Rightarrow> bool" where
  "can_access_cr u change_request =
     (let user_role_name = (case role u of None \<Rightarrow> None | Some r \<Rightarrow> Some (lower (role_name r))) in
      if user_role_name = Some ''admin'' then
        created_by_id (project change_request) = Some (user_id u)
      else if \<not> has_project_access u (project change_request) then False
      else if user_role_name = Some ''requester'' then
        requester_id change_request = user_id u
      else if user_role_name = Some ''implementer'' then
        status change_request \<in> set implementer_visible
      else if user_role_name = Some ''approver'' then True
      else False)"

section \<open>Guards and transitions of the change request (change_request.py)\<close>

definition non_editable_statuses :: "CRStatus list" where
  "non_editable_statuses = [APPROVED, IMPLEMENTED, CLOSED, REJECTED, ROLLED_BACK]"

definition can_edit :: "ChangeRequest \<Rightarrow> User \<Rightarrow> bool" where
  "can_edit cr u =
     (if status cr \<in> set non_editable_statuses then False
      else if requester_id cr = user_id u then True
      else if has_permission u ''manage_system'' then True
      else False)"

definition can_submit :: "ChangeRequest \<Rightarrow> User \<Rightarrow> bool" where
  "can_submit cr u = (requester_id cr = user_id u \<and> status cr = DRAFT)"

definition can_approve :: "ChangeRequest \<Rightarrow> User \<Rightarrow> bool" where
  "can_approve cr u = (has_permission u ''approve_cr'' \<and> status cr = PENDING_APPROVAL)"

definition can_implement :: "ChangeRequest \<Rightarrow> User \<Rightarrow> bool" where
  "can_implement cr u = (has_permission u ''implement_cr'' \<and> status cr = APPROVED)"

text \<open>
  Every method reads the clock itself; the readings are parameters. \<^verbatim>\<open>submit\<close>
  reads it twice (\<open>t1\<close> for \<^verbatim>\<open>submitted_at\<close>, \<open>t2\<close> for the stamp).
\<close>

definition submit :: "int \<Rightarrow> int \<Rightarrow> ChangeRequest \<Rightarrow> ChangeRequest" where
  "submit t1 t2 cr =
     (if status cr = DRAFT then
        cr\<lparr>status := PENDING_APPROVAL,
           submitted_at := Some (utc_now t1),
           sla_deadline := Some (replace_235959 (utc_now t2))\<rparr>
      else cr)"

definition approve :: "int \<Rightarrow> User \<Rightarrow> string option \<Rightarrow> ChangeRequest \<Rightarrow> ChangeRequest" where
  "approve now approver comments cr =
     cr\<lparr>status := APPROVED,
        approver_id := Some (user_id approver),
        approved_date := Some (utc_now now),
        approval_comments := comments\<rparr>"

definition reject :: "int \<Rightarrow> User \<Rightarrow> string option \<Rightarrow> ChangeRequest \<Rightarrow> ChangeRequest" where
  "reject now approver reason cr =
     cr\<lparr>status := REJECTED,
        approver_id := Some (user_id approver),
        approved_date := Some (utc_now now),
        rejection_reason := reason\<rparr>"

definition start_implementation :: "int \<Rightarrow> User \<Rightarrow> ChangeRequest \<Rightarrow> ChangeRequest" where
  "start_implementation now implementer cr =
     cr\<lparr>status := IN_PROGRESS,
        implementer_id := Some (user_id implementer),
        implementation_date := Some (utc_now now)\<rparr>"

definition complete_implementation :: "ChangeRequest \<Rightarrow> ChangeRequest" where
  "complete_implementation cr = cr\<lparr>status := IMPLEMENTED\<rparr>"

definition close :: "int \<Rightarrow> User \<Rightarrow> string option \<Rightarrow> string option \<Rightarrow> ChangeRequest \<Rightarrow> ChangeRequest" where
  "close now u comments notes cr =
     cr\<lparr>status := CLOSED,
        closed_date := Some (utc_now now),
        closed_by_id := Some (user_id u),
        closure_comments := comments,
        closure_notes := notes\<rparr>"

definition rollback :: "int \<Rightarrow> User \<Rightarrow> string option \<Rightarrow> ChangeRequest \<Rightarrow> ChangeRequest" where
  "rollback now u reason cr =
     cr\<lparr>status := ROLLED_BACK,
        rolled_back_at := Some (utc_now now),
        rolled_back_by_id := Some (user_id u),
        rollback_reason := reason\<rparr>"

section \<open>Deadline evaluation (change_request.py)\<close>

text \<open>
  \<^verbatim>\<open>check_sla_breach\<close> compares the aware \<^verbatim>\<open>datetime.now(timezone.utc)\<close> with the
  stored deadline; Python raises \<^verbatim>\<open>TypeError\<close> when the deadline is naive. The
  method returns its boolean and the mutated object.
\<close>

definition check_sla_breach :: "int \<Rightarrow> ChangeRequest \<Rightarrow> error + (bool \<times> ChangeRequest)" where
  "check_sla_breach now cr =
     (case implementation_deadline cr of
        None \<Rightarrow> Inr (False, cr)
      | Some d \<Rightarrow>
          if is_sla_breached cr then Inr (False, cr)
          else if \<not> tz_aware d then Inl TypeError
          else if now > micros d then Inr (True, cr\<lparr>is_sla_breached := True\<rparr>)
          else Inr (False, cr))"

text \<open>A naive deadline is read as UTC before the subtraction.\<close>

definition time_until_deadline :: "int \<Rightarrow> ChangeRequest \<Rightarrow> int option" where
  "time_until_deadline now cr =
     (case implementation_deadline cr of
        None \<Rightarrow> None
      | Some d \<Rightarrow>
          (let deadline = (if \<not> tz_aware d then d\<lparr>tz_aware := True\<rparr> else d)
           in Some (micros deadline - now)))"

text \<open>
  \<^verbatim>\<open>if time_left and time_left.total_seconds() <= 86400\<close>: a \<^verbatim>\<open>timedelta\<close> is
  falsy exactly when it is zero.
\<close>

definition is_deadline_warning_needed :: "int \<Rightarrow> ChangeRequest \<Rightarrow> bool" where
  "is_deadline_warning_needed now cr =
     (if implementation_deadline cr \<noteq> None \<and> \<not> sla_warning_sent cr \<and> \<not> is_sla_breached cr then
        (case time_until_deadline now cr of
           None \<Rightarrow> False
         | Some time_left \<Rightarrow> if time_left \<noteq> 0 \<and> time_left \<le> 86400 * second_us then True else False)
      else False)"

section \<open>The SLA sweep (sla_monitor.py, email_service.py)\<close>

text \<open>
  What the sweep needs from outside: the administrators that
  \<^verbatim>\<open>send_sla_breach_email\<close> finds with its query.
\<close>

record environment =
  admins :: "int list"

datatype sla_kind = Breach | Warning

text \<open>A completed call of a send function: kind, id of the change request, recipients.\<close>

datatype sla_event = Fired sla_kind int "int list"

fun event_cr :: "sla_event \<Rightarrow> int" where
  "event_cr (Fired k i rs) = i"

fun event_kind :: "sla_event \<Rightarrow> sla_kind" where
  "event_kind (Fired k i rs) = k"

text \<open>
  \<^verbatim>\<open>send_sla_breach_email\<close> returns at once when there is no administrator. Otherwise
  it computes \<^verbatim>\<open>datetime.now() - cr.implementation_deadline\<close> before the first mail:
  a naive reading minus the deadline, which raises \<^verbatim>\<open>TypeError\<close> when the deadline
  is aware. Without a deadline the subtraction is skipped, and formatting the text of the
  first mail calls \<^verbatim>\<open>strftime\<close> on \<^verbatim>\<open>None\<close>, an
  \<^verbatim>\<open>AttributeError\<close>. The mails themselves cannot raise
  (\<^verbatim>\<open>_send_email\<close> catches everything).
\<close>

definition send_sla_breach_email :: "environment \<Rightarrow> ChangeRequest \<Rightarrow> error + int list" where
  "send_sla_breach_email env cr =
     (if admins env = [] then Inr []
      else (case implementation_deadline cr of
              None \<Rightarrow> Inl AttributeError
            | Some d \<Rightarrow> if tz_aware d then Inl TypeError else Inr (admins env)))"

text \<open>The recipients are the set of implementer, approver and requester.\<close>

definition send_sla_warning_email :: "ChangeRequest \<Rightarrow> int list" where
  "send_sla_warning_email cr =
     remdups ((case implementer_id cr of None \<Rightarrow> [] | Some i \<Rightarrow> [i])
              @ (case approver_id cr of None \<Rightarrow> [] | Some a \<Rightarrow> [a])
              @ [requester_id cr])"

text \<open>
  The body of the \<^verbatim>\<open>for\<close> loop for one change request, at one clock reading. It
  returns the object as the session then holds it, the send calls that completed, and
  whether \<^verbatim>\<open>db.session.commit()\<close> was called; \<open>Inl\<close> is an exception leaving
  the body.
\<close>

definition process_cr ::
  "environment \<Rightarrow> int \<Rightarrow> ChangeRequest \<Rightarrow> error + (ChangeRequest \<times> sla_event list \<times> bool)" where
  "process_cr env now cr =
     (if status cr = CLOSED then Inr (cr, [], False)
      else
        (case check_sla_breach now cr of
           Inl e \<Rightarrow> Inl e
         | Inr (breached, cr1) \<Rightarrow>
             if breached then
               (if \<not> sla_warning_sent cr1 then
                  (case send_sla_breach_email env cr1 of
                     Inl e \<Rightarrow> Inl e
                   | Inr rcpts \<Rightarrow>
                       Inr (cr1\<lparr>sla_warning_sent := True\<rparr>, [Fired Breach (cr_id cr1) rcpts], True))
                else Inr (cr1, [], False))
             else if is_deadline_warning_needed now cr1 \<and> \<not> sla_warning_sent cr1 then
               (case time_until_deadline now cr1 of
                  None \<Rightarrow> Inr (cr1, [], False)
                | Some time_remaining \<Rightarrow>
                    if time_remaining \<noteq> 0 then
                      (if 0 < time_remaining \<and> time_remaining \<le> 24 * (3600 * second_us) then
                         Inr (cr1\<lparr>sla_warning_sent := True\<rparr>,
                              [Fired Warning (cr_id cr1) (send_sla_warning_email cr1)], True)
                       else Inr (cr1, [], False))
                    else Inr (cr1, [], False))
             else Inr (cr1, [], False)))"

definition active_statuses :: "CRStatus list" where
  "active_statuses = [APPROVED, IN_PROGRESS, IMPLEMENTED]"

text \<open>The filter of the query that loads \<^verbatim>\<open>active_crs\<close>.\<close>

definition is_active_cr :: "ChangeRequest \<Rightarrow> bool" where
  "is_active_cr cr = (status cr \<in> set active_statuses \<and> implementation_deadline cr \<noteq> None)"

record sweep_result =
  stored :: "ChangeRequest list"
  fired :: "sla_event list"
  logged_error :: "error option"

text \<open>
  The table is a list of rows. The loop visits the rows the query selects, in table order;
  the other rows are carried along. \<open>com\<close> holds the rows passed so far as the database
  has them, \<open>ses\<close> the same rows as the session objects have them. A commit writes
  every pending change of the session. An exception reaches the single handler around the
  loop: it is logged, the session is rolled back, and the run is over. Changes still
  pending when the loop ends were never committed and are not part of the stored rows.
  The database is taken to accept every commit; the exceptions of the model are the ones
  the code raises itself. A \<^verbatim>\<open>db.DateTime\<close> column returns a naive deadline
  when a row is loaded, and the query fixes no order; the model admits aware deadlines and
  any order of the rows as well.
\<close>

fun sweep_loop ::
  "environment \<Rightarrow> int \<Rightarrow> ChangeRequest list \<Rightarrow> ChangeRequest list \<Rightarrow> sla_event list
     \<Rightarrow> ChangeRequest list \<Rightarrow> sweep_result" where
  "sweep_loop env now com ses evs [] = \<lparr>stored = com, fired = evs, logged_error = None\<rparr>"
| "sweep_loop env now com ses evs (cr # rest) =
     (if \<not> is_active_cr cr then sweep_loop env now (com @ [cr]) (ses @ [cr]) evs rest
      else
        (case process_cr env now cr of
           Inl e \<Rightarrow> \<lparr>stored = com @ cr # rest, fired = evs, logged_error = Some e\<rparr>
         | Inr (cr', new, committed) \<Rightarrow>
             if committed then sweep_loop env now (ses @ [cr']) (ses @ [cr']) (evs @ new) rest
             else sweep_loop env now (com @ [cr]) (ses @ [cr']) (evs @ new) rest))"

text \<open>
  \<^const>\<open>sweep_loop\<close> started on the whole table is the \<^verbatim>\<open>try\<close> statement of
  \<^verbatim>\<open>check_sla_deadlines\<close>, run inside an application context. Entering the
  context (\<^verbatim>\<open>with current_app.app_context()\<close>) comes before the
  \<^verbatim>\<open>try\<close> and is not covered by its handler; a call without an application
  context fails there and is outside this model.
\<close>

definition check_sla_deadlines :: "environment \<Rightarrow> int \<Rightarrow> ChangeRequest list \<Rightarrow> sweep_result" where
  "check_sla_deadlines env now table = sweep_loop env now [] [] [] table"

text \<open>
  The change requests for which the loop body is entered in a run, by id and in the order
  of the loop: every selected row up to and including the first one whose body raises.
\<close>

fun processed_crs :: "environment \<Rightarrow> int \<Rightarrow> ChangeRequest list \<Rightarrow> int list" where
  "processed_crs env now [] = []"
| "processed_crs env now (cr # rest) =
     (if \<not> is_active_cr cr then processed_crs env now rest
      else
        (case process_cr env now cr of
           Inl e \<Rightarrow> [cr_id cr]
         | Inr x \<Rightarrow> cr_id cr # processed_crs env now rest))"

section \<open>Calls of the transition methods\<close>

datatype cr_call =
  Submit int int
  | Approve int User "string option"
  | Reject int User "string option"
  | StartImplementation int User
  | CompleteImplementation
  | Close int User "string option" "string option"
  | Rollback int User "string option"

fun apply_call :: "cr_call \<Rightarrow> ChangeRequest \<Rightarrow> ChangeRequest" where
  "apply_call (Submit t1 t2) cr = submit t1 t2 cr"
| "apply_call (Approve now u comments) cr = approve now u comments cr"
| "apply_call (Reject now u reason) cr = reject now u reason cr"
| "apply_call (StartImplementation now u) cr = start_implementation now u cr"
| "apply_call CompleteImplementation cr = complete_implementation cr"
| "apply_call (Close now u comments notes) cr = close now u comments notes cr"
| "apply_call (Rollback now u reason) cr = rollback now u reason cr"

fun run_calls :: "cr_call list \<Rightarrow> ChangeRequest \<Rightarrow> ChangeRequest" where
  "run_calls [] cr = cr"
| "run_calls (c # cs) cr = run_calls cs (apply_call c cr)"

text \<open>
  The status a caller checks for before it calls a method: the status conjunct of
  \<^verbatim>\<open>can_submit\<close>, \<^verbatim>\<open>can_approve\<close> (used by the approve route for approval
  and rejection) and \<^verbatim>\<open>can_implement\<close>, and in
  \<^verbatim>\<open>app/change_requests/routes.py\<close> the checks of \<^verbatim>\<open>implement\<close>
  (\<^verbatim>\<open>cr.status not in [APPROVED, IN_PROGRESS]\<close> refuses) and of \<^verbatim>\<open>close_cr\<close>
  (\<^verbatim>\<open>cr.status != IMPLEMENTED\<close> refuses). The rollback route checks no status.
\<close>

fun caller_status_check :: "cr_call \<Rightarrow> CRStatus \<Rightarrow> bool" where
  "caller_status_check (Submit t1 t2) s = (s = DRAFT)"
| "caller_status_check (Approve now u comments) s = (s = PENDING_APPROVAL)"
| "caller_status_check (Reject now u reason) s = (s = PENDING_APPROVAL)"
| "caller_status_check (StartImplementation now u) s = (s = APPROVED)"
| "caller_status_check CompleteImplementation s = (s \<in> set [APPROVED, IN_PROGRESS])"
| "caller_status_check (Close now u comments notes) s = (s = IMPLEMENTED)"
| "caller_status_check (Rollback now u reason) s = True"

definition checked_call :: "cr_call \<Rightarrow> ChangeRequest \<Rightarrow> ChangeRequest" where
  "checked_call c cr = (if caller_status_check c (status cr) then apply_call c cr else cr)"

fun run_checked_calls :: "cr_call list \<Rightarrow> ChangeRequest \<Rightarrow> ChangeRequest" where
  "run_checked_calls [] cr = cr"
| "run_checked_calls (c # cs) cr = run_checked_calls cs (checked_call c cr)"

text \<open>Position of a status along the lifecycle; Approved and Rejected are alternatives.\<close>

fun stage :: "CRStatus \<Rightarrow> nat" where
  "stage DRAFT = 0"
| "stage SUBMITTED = 1"
| "stage PENDING_APPROVAL = 2"
| "stage APPROVED = 3"
| "stage REJECTED = 3"
| "stage IN_PROGRESS = 4"
| "stage IMPLEMENTED = 5"
| "stage CLOSED = 6"
| "stage ROLLED_BACK = 7"

text \<open>The edges of the transition graph, rollback included.\<close>

definition transition_edges :: "(CRStatus \<times> CRStatus) list" where
  "transition_edges =
     [(DRAFT, PENDING_APPROVAL), (PENDING_APPROVAL, APPROVED), (PENDING_APPROVAL, REJECTED),
      (APPROVED, IN_PROGRESS), (APPROVED, IMPLEMENTED), (IN_PROGRESS, IMPLEMENTED),
      (IMPLEMENTED, CLOSED)]"

section \<open>Sweeps and method calls over time\<close>

text \<open>
  A history of the table: sweeps, each with its environment and clock reading, and calls
  of transition methods on the row at a position. It collects the send calls of all sweeps.
\<close>

datatype sys_action = Sweep environment int | Call nat cr_call

fun sys_step ::
  "sys_action \<Rightarrow> ChangeRequest list \<times> sla_event list \<Rightarrow> ChangeRequest list \<times> sla_event list" where
  "sys_step (Sweep env now) (table, evs) =
     (stored (check_sla_deadlines env now table), evs @ fired (check_sla_deadlines env now table))"
| "sys_step (Call i c) (table, evs) =
     (if i < length table then (table[i := apply_call c (table ! i)], evs) else (table, evs))"

fun run_history ::
  "sys_action list \<Rightarrow> ChangeRequest list \<times> sla_event list \<Rightarrow> ChangeRequest list \<times> sla_event list" where
  "run_history [] st = st"
| "run_history (a # as) st = run_history as (sys_step a st)"

section \<open>CR numbers (generate\_cr\_number)\<close>

definition digit_char :: "nat \<Rightarrow> char" where
  "digit_char d = ''0123456789'' ! d"

text \<open>The decimal numeral of a natural number, as \<^verbatim>\<open>str\<close> and the format codes write it.\<close>

fun dec :: "nat \<Rightarrow> string" where
  "dec n = (if n < 10 then [digit_char n] else dec (n div 10) @ [digit_char (n mod 10)])"

definition zfill :: "nat \<Rightarrow> string \<Rightarrow> string" where
  "zfill w s = replicate (w - length s) (CHR ''0'') @ s"

text \<open>The format code \<^verbatim>\<open>04d\<close> for a number that is not negative.\<close>

definition format_04d :: "nat \<Rightarrow> string" where
  "format_04d n = zfill 4 (dec n)"

text \<open>\<^verbatim>\<open>cr_number LIKE 'prefix%'\<close>: the prefix holds no wildcard.\<close>

definition like_prefix :: "string \<Rightarrow> string \<Rightarrow> bool" where
  "like_prefix p s = (take (length p) s = p)"

text \<open>
  \<open>today\<close> is the text \<^verbatim>\<open>strftime('%Y%m%d')\<close> returns; \<open>numbers\<close> are the
  \<^verbatim>\<open>cr_number\<close> values of the stored rows.
\<close>

definition generate_cr_number :: "string \<Rightarrow> string list \<Rightarrow> string" where
  "generate_cr_number today numbers =
     (let prefix = ''CR-'' @ today;
          count = length (filter (like_prefix prefix) numbers)
      in prefix @ ''-'' @ format_04d (count + 1))"

text \<open>
  One caller creating \<open>n\<close> change requests on the day \<open>today\<close>, each stored before
  the next number is generated (the create route).
\<close>

fun create_crs :: "string \<Rightarrow> nat \<Rightarrow> string list \<Rightarrow> string list" where
  "create_crs today 0 numbers = numbers"
| "create_crs today (Suc n) numbers =
     create_crs today n (numbers @ [generate_cr_number today numbers])"

section \<open>Predicates used in the proofs\<close>

text \<open>A row on which the loop body, at this clock reading, sends nothing and commits nothing.\<close>

definition settled :: "environment \<Rightarrow> int \<Rightarrow> ChangeRequest \<Rightarrow> bool" where
  "settled env now c =
     (\<not> is_active_cr c
      \<or> (case process_cr env now c of Inl e \<Rightarrow> False | Inr (c', new, b) \<Rightarrow> new = [] \<and> \<not> b))"

text \<open>The rows at which a run ends: none left, or a selected row whose processing raises.\<close>

definition stops_at :: "environment \<Rightarrow> int \<Rightarrow> ChangeRequest list \<Rightarrow> bool" where
  "stops_at env now tail =
     (case tail of [] \<Rightarrow> True | r # rest \<Rightarrow> is_active_cr r \<and> isl (process_cr env now r))"

text \<open>The same row later: same id, and no flag that was set is unset.\<close>

definition flags_kept :: "ChangeRequest \<Rightarrow> ChangeRequest \<Rightarrow> bool" where
  "flags_kept r c =
     (cr_id c = cr_id r
      \<and> (is_sla_breached r \<longrightarrow> is_sla_breached c)
      \<and> (sla_warning_sent r \<longrightarrow> sla_warning_sent c))"

text \<open>A table holds a row with the id of the send call and with the one-shot flag set.\<close>

definition flagged_in :: "ChangeRequest list \<Rightarrow> sla_event \<Rightarrow> bool" where
  "flagged_in rows e = list_ex (\<lambda>c. cr_id c = event_cr e \<and> sla_warning_sent c) rows"

text \<open>Reading a decimal numeral back, as \<^verbatim>\<open>int\<close> does for a text of digits.\<close>

definition digit_val :: "char \<Rightarrow> nat" where
  "digit_val c = length (takeWhile (\<lambda>d. d \<noteq> c) ''0123456789'')"

definition undec :: "string \<Rightarrow> nat" where
  "undec s = foldl (\<lambda>acc c. 10 * acc + digit_val c) 0 s"

section \<open>Example data\<close>

definition example_project :: Project where
  "example_project = \<lparr>proj_id = 1, created_by_id = Some 10\<rparr>"

text \<open>A change request of requester 1 in the example project, with both SLA flags unset.\<close>

definition example_cr :: "int \<Rightarrow> CRStatus \<Rightarrow> pydatetime option \<Rightarrow> ChangeRequest" where
  "example_cr i st dl =
     \<lparr>cr_id = i, cr_number = ''CR-20250101-0001'', project = example_project,
      status = st, requester_id = 1, approver_id = None, implementer_id = None,
      approved_date = None, implementation_date = None, implementation_deadline = dl,
      closed_date = None, sla_deadline = None, is_sla_breached = False,
      sla_warning_sent = False, rollback_reason = None, rolled_back_at = None,
      rolled_back_by_id = None, approval_comments = None, rejection_reason = None,
      closure_comments = None, closure_notes = None, closed_by_id = None,
      submitted_at = None\<rparr>"

text \<open>A user with a role of the given name and permissions, member of the example project.\<close>

definition example_user :: "int \<Rightarrow> string \<Rightarrow> string list \<Rightarrow> User" where
  "example_user i rn perms =
     \<lparr>user_id = i, role = Some \<lparr>role_name = rn, permissions = perms\<rparr>,
      project_memberships = [\<lparr>m_project_id = 1, m_is_active = True\<rparr>]\<rparr>"

definition aware :: "int \<Rightarrow> pydatetime" where
  "aware t = \<lparr>micros = t, tz_aware = True\<rparr>"

definition naive :: "int \<Rightarrow> pydatetime" where
  "naive t = \<lparr>micros = t, tz_aware = False\<rparr>"

definition hour_us :: int where
  "hour_us = 3600 * second_us"

text \<open>
  Three rows: one whose deadline is at hour 26, one whose deadline was at hour 1, and a
  draft without deadline.
\<close>

definition example_table :: "ChangeRequest list" where
  "example_table =
     [example_cr 1 APPROVED (Some (aware (26 * hour_us))),
      example_cr 2 IN_PROGRESS (Some (aware hour_us)),
      example_cr 3 DRAFT None]"

section \<open>Guards\<close>

lemmas example_defs = example_cr_def example_user_def example_project_def aware_def naive_def
  hour_us_def second_us_def

lemmas lower_defs = lower_def lower_char_def ascii_uppercase_def ascii_lowercase_def

text \<open>
  C6. \<^verbatim>\<open>can_edit\<close> is true exactly when the status is none of Approved, Implemented,
  Closed, Rejected, RolledBack and the user is the requester or has the permission
  \<^verbatim>\<open>manage_system\<close>. So in those five statuses nobody can edit, whatever the role.
\<close>

theorem can_edit_iff:
  "can_edit cr u \<longleftrightarrow>
     status cr \<notin> {APPROVED, IMPLEMENTED, CLOSED, REJECTED, ROLLED_BACK}
     \<and> (requester_id cr = user_id u \<or> has_permission u ''manage_system'')"
  by (auto simp: can_edit_def non_editable_statuses_def)

theorem can_edit_iff_witness:
  "can_edit (example_cr 1 DRAFT None) (example_user 1 ''requester'' [])
   \<and> can_edit (example_cr 1 IN_PROGRESS None) (example_user 7 ''admin'' [''manage_system''])
   \<and> \<not> can_edit (example_cr 1 APPROVED None) (example_user 7 ''admin'' [''manage_system''])
   \<and> \<not> can_edit (example_cr 1 DRAFT None) (example_user 7 ''approver'' [''approve_cr''])"
  using can_edit_iff[of "example_cr 1 DRAFT None" "example_user 1 ''requester'' []"]
        can_edit_iff[of "example_cr 1 IN_PROGRESS None" "example_user 7 ''admin'' [''manage_system'']"]
        can_edit_iff[of "example_cr 1 APPROVED None" "example_user 7 ''admin'' [''manage_system'']"]
        can_edit_iff[of "example_cr 1 DRAFT None" "example_user 7 ''approver'' [''approve_cr'']"]
  by (simp add: example_defs has_permission_def role_has_permission_def)

text \<open>
  Inside \<^verbatim>\<open>can_access_cr\<close> the shortcut of \<^verbatim>\<open>has_project_access\<close> for
  administrators is never taken: a role named exactly \<^verbatim>\<open>admin\<close> has already left
  through the first branch.
\<close>

lemma lower_admin_literal: "n = ''admin'' \<Longrightarrow> lower n = ''admin''"
  by (simp add: lower_defs)

text \<open>
  C8. Access by role, the role being the lower-cased role name: an admin has access exactly
  when they created the project of the change request; a requester exactly when they are its
  requester and an active member of the project; an implementer exactly when they are an
  active member and the status is Approved, InProgress, Implemented, Closed or RolledBack;
  an approver exactly when they are an active member; any other role, or none, is refused.
\<close>

theorem can_access_cr_matrix:
  "can_access_cr u cr \<longleftrightarrow>
     (case role u of
        None \<Rightarrow> False
      | Some r \<Rightarrow>
          (let n = lower (role_name r);
               belongs = (\<exists>m \<in> set (project_memberships u).
                            m_project_id m = proj_id (project cr) \<and> m_is_active m)
           in if n = ''admin'' then created_by_id (project cr) = Some (user_id u)
              else if n = ''requester'' then requester_id cr = user_id u \<and> belongs
              else if n = ''implementer'' then
                belongs \<and> status cr \<in> {APPROVED, IN_PROGRESS, IMPLEMENTED, CLOSED, ROLLED_BACK}
              else if n = ''approver'' then belongs
              else False))"
  by (auto simp: can_access_cr_def has_project_access_def is_admin_def has_role_def Let_def
        implementer_visible_def split: option.splits dest: lower_admin_literal)

theorem can_access_cr_matrix_witness:
  "can_access_cr (example_user 10 ''Admin'' []) (example_cr 1 DRAFT None)
   \<and> \<not> can_access_cr (example_user 11 ''admin'' []) (example_cr 1 DRAFT None)
   \<and> can_access_cr (example_user 1 ''requester'' []) (example_cr 1 DRAFT None)
   \<and> \<not> can_access_cr (example_user 2 ''requester'' []) (example_cr 1 DRAFT None)
   \<and> \<not> can_access_cr (example_user 3 ''implementer'' []) (example_cr 1 PENDING_APPROVAL None)
   \<and> can_access_cr (example_user 3 ''implementer'' []) (example_cr 1 APPROVED None)
   \<and> can_access_cr (example_user 4 ''approver'' []) (example_cr 1 REJECTED None)
   \<and> \<not> can_access_cr (example_user 5 ''auditor'' []) (example_cr 1 APPROVED None)"
  using can_access_cr_matrix[of "example_user 10 ''Admin'' []" "example_cr 1 DRAFT None"]
        can_access_cr_matrix[of "example_user 11 ''admin'' []" "example_cr 1 DRAFT None"]
        can_access_cr_matrix[of "example_user 1 ''requester'' []" "example_cr 1 DRAFT None"]
        can_access_cr_matrix[of "example_user 2 ''requester'' []" "example_cr 1 DRAFT None"]
        can_access_cr_matrix[of "example_user 3 ''implementer'' []" "example_cr 1 PENDING_APPROVAL None"]
        can_access_cr_matrix[of "example_user 3 ''implementer'' []" "example_cr 1 APPROVED None"]
        can_access_cr_matrix[of "example_user 4 ''approver'' []" "example_cr 1 REJECTED None"]
        can_access_cr_matrix[of "example_user 5 ''auditor'' []" "example_cr 1 APPROVED None"]
  by (simp add: example_defs lower_defs)

section \<open>The warning predicate\<close>

text \<open>
  What \<^verbatim>\<open>is_deadline_warning_needed\<close> computes: the time left must be non-zero and
  at most 24 hours. No lower bound is tested, so a negative time left passes.
\<close>

lemma is_deadline_warning_needed_iff:
  "is_deadline_warning_needed now cr \<longleftrightarrow>
     implementation_deadline cr \<noteq> None \<and> \<not> is_sla_breached cr \<and> \<not> sla_warning_sent cr
     \<and> (\<exists>left. time_until_deadline now cr = Some left \<and> left \<noteq> 0 \<and> left \<le> 24 * hour_us)"
  by (auto simp: is_deadline_warning_needed_def hour_us_def split: option.splits)

text \<open>
  C2. The claim asks for \<open>0 < time left \<le> 24h\<close>, and for the answer False once the
  deadline has passed. For a change request whose aware deadline was 01:00 on the first
  day, read at 02:00 with both flags unset, the time left is minus one hour and the
  predicate answers True.
\<close>

theorem warning_needed_after_deadline:
  "time_until_deadline (2 * hour_us) (example_cr 1 APPROVED (Some (aware hour_us))) = Some (- hour_us)
   \<and> is_deadline_warning_needed (2 * hour_us) (example_cr 1 APPROVED (Some (aware hour_us)))"
  by (simp add: is_deadline_warning_needed_def time_until_deadline_def example_defs)

section \<open>Submission\<close>

lemma stamp_bounds:
  "0 \<le> 86399 * second_us + t mod second_us \<and> 86399 * second_us + t mod second_us < day_us"
proof -
  have "0 \<le> t mod second_us" "t mod second_us < second_us"
    by (simp_all add: second_us_def)
  then show ?thesis by (simp add: day_us_def second_us_def)
qed

lemma replace_235959_day: "micros (replace_235959 d) div day_us = micros d div day_us"
proof -
  let ?x = "86399 * second_us + micros d mod second_us"
  have b: "0 \<le> ?x" "?x < day_us" using stamp_bounds[of "micros d"] by simp_all
  have "(micros d div day_us * day_us + ?x) div day_us = micros d div day_us + ?x div day_us"
    by (simp add: day_us_def second_us_def)
  moreover have "?x div day_us = 0" using b by (simp add: div_pos_pos_trivial)
  ultimately show ?thesis by (simp add: replace_235959_def add.assoc)
qed

lemma replace_235959_time:
  "micros (replace_235959 d) mod day_us = 86399 * second_us + micros d mod second_us"
proof -
  let ?x = "86399 * second_us + micros d mod second_us"
  have b: "0 \<le> ?x" "?x < day_us" using stamp_bounds[of "micros d"] by simp_all
  have "(micros d div day_us * day_us + ?x) mod day_us = ?x mod day_us"
    by simp
  moreover have "?x mod day_us = ?x" using b by (simp add: mod_pos_pos_trivial)
  ultimately show ?thesis by (simp add: replace_235959_def add.assoc)
qed

text \<open>
  C7, as stated, fails: a Draft change request that already has an SLA deadline (and an
  implementation deadline) gets the stamp of the submission day all the same; the stored
  SLA deadline is replaced.
\<close>

theorem submit_overwrites_sla_deadline:
  "status ((example_cr 1 DRAFT (Some (aware (100 * hour_us))))\<lparr>sla_deadline := Some (aware 0)\<rparr>) = DRAFT
   \<and> sla_deadline ((example_cr 1 DRAFT (Some (aware (100 * hour_us))))\<lparr>sla_deadline := Some (aware 0)\<rparr>) = Some (aware 0)
   \<and> sla_deadline (submit (25 * hour_us) (25 * hour_us)
        ((example_cr 1 DRAFT (Some (aware (100 * hour_us))))\<lparr>sla_deadline := Some (aware 0)\<rparr>))
      = Some (aware (48 * hour_us - second_us))
   \<and> aware (48 * hour_us - second_us) \<noteq> aware 0"
  by (simp add: submit_def replace_235959_def utc_now_def day_us_def example_defs)

text \<open>
  C7, amended. On a Draft change request \<^verbatim>\<open>submit\<close> sets the status to
  PendingApproval, \<^verbatim>\<open>submitted_at\<close> to its first clock reading, and
  \<^verbatim>\<open>sla_deadline\<close> to an aware stamp on the UTC day of its second clock reading, at
  23:59:59 with the microsecond of that reading, whatever was stored before; the
  implementation deadline and every other column stay. On any other status nothing
  changes.
\<close>

theorem submit_effect:
  "(status cr = DRAFT \<longrightarrow>
      status (submit t1 t2 cr) = PENDING_APPROVAL
      \<and> submitted_at (submit t1 t2 cr) = Some (utc_now t1)
      \<and> (\<exists>stamp. sla_deadline (submit t1 t2 cr) = Some stamp \<and> tz_aware stamp
            \<and> micros stamp div day_us = t2 div day_us
            \<and> micros stamp mod day_us = 86399 * second_us + t2 mod second_us)
      \<and> implementation_deadline (submit t1 t2 cr) = implementation_deadline cr
      \<and> submit t1 t2 cr =
          cr\<lparr>status := PENDING_APPROVAL, submitted_at := Some (utc_now t1),
             sla_deadline := sla_deadline (submit t1 t2 cr)\<rparr>)
   \<and> (status cr \<noteq> DRAFT \<longrightarrow> submit t1 t2 cr = cr)"
proof -
  have "tz_aware (replace_235959 (utc_now t2))"
    by (simp add: replace_235959_def utc_now_def)
  moreover have "micros (replace_235959 (utc_now t2)) div day_us = t2 div day_us"
    using replace_235959_day[of "utc_now t2"] by (simp add: utc_now_def)
  moreover have "micros (replace_235959 (utc_now t2)) mod day_us = 86399 * second_us + t2 mod second_us"
    using replace_235959_time[of "utc_now t2"] by (simp add: utc_now_def)
  ultimately show ?thesis by (simp add: submit_def)
qed

theorem submit_effect_witness:
  "status (submit (25 * hour_us) (25 * hour_us) (example_cr 1 DRAFT (Some (aware (100 * hour_us))))) = PENDING_APPROVAL
   \<and> implementation_deadline (submit (25 * hour_us) (25 * hour_us) (example_cr 1 DRAFT (Some (aware (100 * hour_us)))))
       = Some (aware (100 * hour_us))
   \<and> submit (25 * hour_us) (25 * hour_us) (example_cr 1 APPROVED None) = example_cr 1 APPROVED None"
  using submit_effect[of "example_cr 1 DRAFT (Some (aware (100 * hour_us)))" "25 * hour_us" "25 * hour_us"]
        submit_effect[of "example_cr 1 APPROVED None" "25 * hour_us" "25 * hour_us"]
  by (simp add: example_cr_def)


section \<open>The lifecycle\<close>

text \<open>
  Only \<^verbatim>\<open>submit\<close> looks at the status. Every other method assigns its target status
  whatever the current one is.
\<close>

lemma status_after:
  "status (submit t1 t2 cr) = (if status cr = DRAFT then PENDING_APPROVAL else status cr)"
  "status (approve now u comments cr) = APPROVED"
  "status (reject now u reason cr) = REJECTED"
  "status (start_implementation now u cr) = IN_PROGRESS"
  "status (complete_implementation cr) = IMPLEMENTED"
  "status (close now u comments notes cr) = CLOSED"
  "status (rollback now u reason cr) = ROLLED_BACK"
  by (simp_all add: submit_def approve_def reject_def start_implementation_def
        complete_implementation_def close_def rollback_def)

lemma checked_call_edge:
  "status (checked_call c cr) = status cr
   \<or> (status cr, status (checked_call c cr)) \<in> set transition_edges
   \<or> status (checked_call c cr) = ROLLED_BACK"
  by (cases c) (auto simp: checked_call_def status_after transition_edges_def)

lemma checked_call_stage:
  "status (checked_call c cr) = status cr \<or> stage (status cr) < stage (status (checked_call c cr))"
  by (cases c; cases "status cr") (auto simp: checked_call_def status_after)

lemma run_checked_calls_stage:
  "status (run_checked_calls cs cr) = status cr
   \<or> stage (status cr) < stage (status (run_checked_calls cs cr))"
proof (induction cs arbitrary: cr)
  case Nil
  show ?case by simp
next
  case (Cons c cs)
  from Cons.IH[of "checked_call c cr"] checked_call_stage[of c cr]
  show ?case by (auto simp del: stage.simps)
qed

lemma run_checked_calls_append:
  "run_checked_calls (cs1 @ cs2) cr = run_checked_calls cs2 (run_checked_calls cs1 cr)"
  by (induction cs1 arbitrary: cr) simp_all

lemma run_checked_calls_rolled_back:
  "status cr = ROLLED_BACK \<Longrightarrow> status (run_checked_calls cs cr) = ROLLED_BACK"
proof (induction cs arbitrary: cr)
  case Nil
  then show ?case by simp
next
  case (Cons c cs)
  have "status (checked_call c cr) = ROLLED_BACK"
    using Cons.prems by (cases c) (auto simp: checked_call_def status_after)
  then show ?case using Cons.IH by simp
qed

text \<open>The guards of the model imply the status checks used below.\<close>

lemma can_approve_checked:
  "can_approve cr u \<Longrightarrow> caller_status_check (Approve now u comments) (status cr)
     \<and> caller_status_check (Reject now u reason) (status cr)"
  by (simp add: can_approve_def)

lemma can_implement_checked:
  "can_implement cr u \<Longrightarrow> caller_status_check (StartImplementation now u) (status cr)"
  by (simp add: can_implement_def)

lemma can_submit_checked:
  "can_submit cr u \<Longrightarrow> caller_status_check (Submit t1 t2) (status cr)"
  by (simp add: can_submit_def)

text \<open>
  C4, as stated, fails for sequences of calls of the public methods: after submit, approve,
  complete\_implementation and close the status is Closed, and one more call of approve
  puts it back to Approved; and after rollback a call of start\_implementation leaves
  RolledBack for InProgress.
\<close>

theorem unchecked_calls_go_back:
  "status (run_calls [Submit 0 0, Approve 0 (example_user 4 ''approver'' [''approve_cr'']) None,
                      CompleteImplementation,
                      Close 0 (example_user 4 ''approver'' [''approve_cr'']) None None]
             (example_cr 1 DRAFT None)) = CLOSED
   \<and> status (run_calls [Submit 0 0, Approve 0 (example_user 4 ''approver'' [''approve_cr'']) None,
                      CompleteImplementation,
                      Close 0 (example_user 4 ''approver'' [''approve_cr'']) None None,
                      Approve 0 (example_user 4 ''approver'' [''approve_cr'']) None]
             (example_cr 1 DRAFT None)) = APPROVED
   \<and> status (run_calls [Rollback 0 (example_user 7 ''admin'' [''rollback_cr'']) None,
                        StartImplementation 0 (example_user 3 ''implementer'' [''implement_cr''])]
             (example_cr 1 IMPLEMENTED None)) = IN_PROGRESS"
  by (simp add: status_after example_cr_def)

text \<open>
  C4, amended. When every method is called only in the status its caller checks for
  (submit in Draft; approve and reject in PendingApproval; start\_implementation in Approved;
  complete\_implementation in Approved or InProgress; close in Implemented; rollback in any
  status), then every call leaves the status as it is, follows an edge of the transition
  graph, or ends in RolledBack; the stage of the status never decreases over any sequence
  of calls; a status that has been left is never entered again; and RolledBack is never left.
\<close>

theorem checked_calls_forward:
  "(status (checked_call c cr) = status cr
      \<or> (status cr, status (checked_call c cr)) \<in> set transition_edges
      \<or> status (checked_call c cr) = ROLLED_BACK)
   \<and> stage (status cr) \<le> stage (status (run_checked_calls cs cr))
   \<and> (status (run_checked_calls (cs @ cs') cr) = status cr \<longrightarrow>
        status (run_checked_calls cs cr) = status cr)
   \<and> (status cr = ROLLED_BACK \<longrightarrow> status (run_checked_calls cs cr) = ROLLED_BACK)"
proof -
  let ?a = "run_checked_calls cs cr"
  let ?b = "run_checked_calls cs' ?a"
  have 1: "status ?a = status cr \<or> stage (status cr) < stage (status ?a)"
    by (rule run_checked_calls_stage)
  have 2: "status ?b = status ?a \<or> stage (status ?a) < stage (status ?b)"
    by (rule run_checked_calls_stage)
  have "status ?b = status cr \<longrightarrow> status ?a = status cr"
    using 1 2 by (auto simp del: stage.simps)
  then have "status (run_checked_calls (cs @ cs') cr) = status cr \<longrightarrow> status ?a = status cr"
    by (simp add: run_checked_calls_append)
  moreover have "stage (status cr) \<le> stage (status ?a)"
    using 1 by (auto simp del: stage.simps)
  ultimately show ?thesis
    using checked_call_edge[of c cr] run_checked_calls_rolled_back[of cr cs] by blast
qed

theorem checked_calls_forward_witness:
  "status (checked_call (Approve 0 (example_user 4 ''approver'' [''approve_cr'']) None)
              (example_cr 1 PENDING_APPROVAL None)) = APPROVED
   \<and> (PENDING_APPROVAL, APPROVED) \<in> set transition_edges
   \<and> status (run_checked_calls [Approve 0 (example_user 4 ''approver'' [''approve_cr'']) None]
              (example_cr 1 CLOSED None)) = CLOSED
   \<and> status (run_checked_calls [StartImplementation 0 (example_user 3 ''implementer'' [''implement_cr''])]
              (example_cr 1 ROLLED_BACK None)) = ROLLED_BACK"
  using checked_calls_forward[of "Approve 0 (example_user 4 ''approver'' [''approve_cr'']) None"
          "example_cr 1 PENDING_APPROVAL None" "[]" "[]"]
        checked_calls_forward[of "Approve 0 (example_user 4 ''approver'' [''approve_cr'']) None"
          "example_cr 1 CLOSED None"
          "[Approve 0 (example_user 4 ''approver'' [''approve_cr'']) None]" "[]"]
        checked_calls_forward[of "Approve 0 (example_user 4 ''approver'' [''approve_cr'']) None"
          "example_cr 1 ROLLED_BACK None"
          "[StartImplementation 0 (example_user 3 ''implementer'' [''implement_cr''])]" "[]"]
  by (simp add: checked_call_def status_after example_cr_def transition_edges_def)


section \<open>One change request in the sweep\<close>

text \<open>
  The outcomes of the loop body: nothing happens; the breach is marked on an object whose
  flag is already set (no mail, no commit); the breach is marked, the breach mail goes out,
  the flag is set and committed; or the warning goes out, the flag is set and committed.
\<close>

lemma check_sla_breach_cases:
  assumes "check_sla_breach now r = Inr (b, r1)"
  shows "(b \<and> r1 = r\<lparr>is_sla_breached := True\<rparr> \<and> \<not> is_sla_breached r
            \<and> (\<exists>d. implementation_deadline r = Some d \<and> tz_aware d \<and> micros d < now))
         \<or> (\<not> b \<and> r1 = r)"
  using assms by (auto simp: check_sla_breach_def split: option.splits if_splits)

lemma process_cr_cases:
  assumes "process_cr env now r = Inr (r', ev, b)"
  shows "(r' = r \<and> ev = [] \<and> \<not> b)
       \<or> (r' = r\<lparr>is_sla_breached := True\<rparr> \<and> ev = [] \<and> \<not> b \<and> sla_warning_sent r \<and> \<not> is_sla_breached r)
       \<or> (\<exists>rc. r' = r\<lparr>is_sla_breached := True, sla_warning_sent := True\<rparr> \<and> ev = [Fired Breach (cr_id r) rc] \<and> b
             \<and> \<not> sla_warning_sent r \<and> \<not> is_sla_breached r)
       \<or> (r' = r\<lparr>sla_warning_sent := True\<rparr> \<and> ev = [Fired Warning (cr_id r) (send_sla_warning_email r)] \<and> b
             \<and> \<not> sla_warning_sent r \<and> \<not> is_sla_breached r
             \<and> check_sla_breach now r = Inr (False, r))"
proof (cases "status r = CLOSED")
  case True
  with assms show ?thesis by (simp add: process_cr_def)
next
  case False
  from assms False obtain br r1 where c: "check_sla_breach now r = Inr (br, r1)"
    by (auto simp: process_cr_def split: sum.splits)
  from check_sla_breach_cases[OF c] show ?thesis
  proof
    assume h: "br \<and> r1 = r\<lparr>is_sla_breached := True\<rparr> \<and> \<not> is_sla_breached r
            \<and> (\<exists>d. implementation_deadline r = Some d \<and> tz_aware d \<and> micros d < now)"
    with assms False c show ?thesis
      by (auto simp: process_cr_def split: sum.splits if_splits)
  next
    assume h: "\<not> br \<and> r1 = r"
    with assms False c show ?thesis
      by (auto simp: process_cr_def is_deadline_warning_needed_def split: sum.splits if_splits option.splits)
  qed
qed

lemma check_sla_breach_breached:
  "is_sla_breached r \<Longrightarrow> check_sla_breach now r = Inr (False, r)"
  by (simp add: check_sla_breach_def split: option.splits)

lemma warning_not_needed:
  "is_sla_breached r \<or> sla_warning_sent r \<Longrightarrow> \<not> is_deadline_warning_needed now r"
  by (auto simp: is_deadline_warning_needed_def)

lemma check_sla_breach_sent:
  "check_sla_breach now r = Inr (False, r) \<Longrightarrow>
   check_sla_breach now (r\<lparr>sla_warning_sent := True\<rparr>) = Inr (False, r\<lparr>sla_warning_sent := True\<rparr>)"
  by (cases "implementation_deadline r") (auto simp: check_sla_breach_def split: if_splits)

lemma process_cr_quiet:
  "check_sla_breach now r = Inr (False, r) \<Longrightarrow> \<not> is_deadline_warning_needed now r \<Longrightarrow>
   process_cr env now r = Inr (r, [], False)"
  by (simp add: process_cr_def)

lemma process_cr_changed:
  assumes "process_cr env now r = Inr (r', ev, b)"
  shows "(r' = r \<and> ev = [] \<and> \<not> b) \<or> is_sla_breached r'
        \<or> (r' = r\<lparr>sla_warning_sent := True\<rparr> \<and> check_sla_breach now r = Inr (False, r))"
proof -
  from process_cr_cases[OF assms] show ?thesis
  proof (elim disjE conjE exE)
    assume "r' = r" "ev = []" "\<not> b" then show ?thesis by simp
  next
    assume "r' = r\<lparr>is_sla_breached := True\<rparr>"
    then have "is_sla_breached r'" by simp
    then show ?thesis by simp
  next
    fix rc assume "r' = r\<lparr>is_sla_breached := True, sla_warning_sent := True\<rparr>"
    then have "is_sla_breached r'" by simp
    then show ?thesis by simp
  next
    assume "r' = r\<lparr>sla_warning_sent := True\<rparr>" "check_sla_breach now r = Inr (False, r)"
    then show ?thesis by simp
  qed
qed

lemma process_cr_idem:
  assumes "process_cr env now r = Inr (r', ev, b)"
  shows "process_cr env now r' = Inr (r', [], False)"
proof -
  from process_cr_changed[OF assms] show ?thesis
  proof (elim disjE conjE)
    assume "r' = r" "ev = []" "\<not> b"
    with assms show ?thesis by simp
  next
    assume br: "is_sla_breached r'"
    have "check_sla_breach now r' = Inr (False, r')"
      by (rule check_sla_breach_breached[OF br])
    moreover have "\<not> is_deadline_warning_needed now r'"
      using br by (intro warning_not_needed disjI1)
    ultimately show ?thesis by (rule process_cr_quiet)
  next
    assume w: "r' = r\<lparr>sla_warning_sent := True\<rparr>" and c: "check_sla_breach now r = Inr (False, r)"
    have s: "sla_warning_sent r'" by (simp add: w)
    have "check_sla_breach now r' = Inr (False, r')"
      unfolding w by (rule check_sla_breach_sent[OF c])
    moreover have "\<not> is_deadline_warning_needed now r'"
      using s by (intro warning_not_needed disjI2)
    ultimately show ?thesis by (rule process_cr_quiet)
  qed
qed

section \<open>The send calls of a sweep\<close>

lemma fired_loop_append:
  "fired (sweep_loop env now com ses evs rows) = evs @ fired (sweep_loop env now [] [] [] rows)"
proof (induction rows arbitrary: com ses evs)
  case Nil
  show ?case by simp
next
  case (Cons r rest)
  show ?case
  proof (cases "is_active_cr r")
    case False
    then show ?thesis using Cons.IH[of "com @ [r]" "ses @ [r]" evs] Cons.IH[of "[r]" "[r]" "[]"]
      by simp
  next
    case True
    show ?thesis
    proof (cases "process_cr env now r")
      case (Inl e)
      with True show ?thesis by simp
    next
      case (Inr x)
      obtain r' new b where x: "x = (r', new, b)" by (cases x) auto
      show ?thesis
      proof (cases b)
        case True
        with \<open>is_active_cr r\<close> Inr x show ?thesis
          using Cons.IH[of "ses @ [r']" "ses @ [r']" "evs @ new"] Cons.IH[of "[r']" "[r']" "new"]
          by simp
      next
        case False
        with \<open>is_active_cr r\<close> Inr x show ?thesis
          using Cons.IH[of "com @ [r]" "ses @ [r']" "evs @ new"] Cons.IH[of "[r]" "[r']" "new"]
          by simp
      qed
    qed
  qed
qed

lemma fired_loop:
  "fired (sweep_loop env now com ses evs rows) = evs @ fired (check_sla_deadlines env now rows)"
  unfolding check_sla_deadlines_def by (rule fired_loop_append)

lemma sweep_events_Nil: "fired (check_sla_deadlines env now []) = []"
  by (simp add: check_sla_deadlines_def)

lemma sweep_events_Cons:
  "fired (check_sla_deadlines env now (r # rest)) =
     (if \<not> is_active_cr r then fired (check_sla_deadlines env now rest)
      else (case process_cr env now r of
              Inl e \<Rightarrow> []
            | Inr (r', new, b) \<Rightarrow> new @ fired (check_sla_deadlines env now rest)))"
proof -
  have "check_sla_deadlines env now (r # rest) = sweep_loop env now [] [] [] (r # rest)"
    by (simp add: check_sla_deadlines_def)
  then show ?thesis
    by (simp add: fired_loop split: sum.splits prod.splits)
qed

section \<open>Running the sweep again\<close>

lemma process_cr_events:
  assumes "process_cr env now r = Inr (r', ev, b)"
  shows "(ev = [] \<and> \<not> b)
         \<or> (\<exists>k rc. ev = [Fired k (cr_id r) rc] \<and> b \<and> \<not> sla_warning_sent r \<and> sla_warning_sent r')"
proof -
  from process_cr_cases[OF assms] show ?thesis
  proof (elim disjE conjE exE)
    assume "ev = []" "\<not> b" "r' = r" then show ?thesis by simp
  next
    assume "ev = []" "\<not> b" "r' = r\<lparr>is_sla_breached := True\<rparr>" then show ?thesis by simp
  next
    fix rc assume "r' = r\<lparr>is_sla_breached := True, sla_warning_sent := True\<rparr>"
      "ev = [Fired Breach (cr_id r) rc]" "b" "\<not> sla_warning_sent r"
    then have "ev = [Fired Breach (cr_id r) rc] \<and> b \<and> \<not> sla_warning_sent r \<and> sla_warning_sent r'"
      by simp
    then show ?thesis by blast
  next
    assume "r' = r\<lparr>sla_warning_sent := True\<rparr>"
      "ev = [Fired Warning (cr_id r) (send_sla_warning_email r)]" "b" "\<not> sla_warning_sent r"
    then have "ev = [Fired Warning (cr_id r) (send_sla_warning_email r)] \<and> b
       \<and> \<not> sla_warning_sent r \<and> sla_warning_sent r'"
      by simp
    then show ?thesis by blast
  qed
qed

lemma process_cr_keeps:
  assumes "process_cr env now r = Inr (r', ev, b)"
  shows "cr_id r' = cr_id r \<and> status r' = status r
         \<and> implementation_deadline r' = implementation_deadline r
         \<and> (is_sla_breached r \<longrightarrow> is_sla_breached r')
         \<and> (sla_warning_sent r \<longrightarrow> sla_warning_sent r')"
proof -
  from process_cr_cases[OF assms] show ?thesis
  proof (elim disjE conjE exE)
    assume "r' = r" then show ?thesis by simp
  next
    assume "r' = r\<lparr>is_sla_breached := True\<rparr>" then show ?thesis by simp
  next
    fix rc assume "r' = r\<lparr>is_sla_breached := True, sla_warning_sent := True\<rparr>"
    then show ?thesis by simp
  next
    assume "r' = r\<lparr>sla_warning_sent := True\<rparr>" then show ?thesis by simp
  qed
qed

lemma process_cr_active:
  "process_cr env now r = Inr (r', ev, b) \<Longrightarrow> is_active_cr r' = is_active_cr r"
  using process_cr_keeps[of env now r r' ev b] by (simp add: is_active_cr_def)

lemma settled_session:
  assumes "process_cr env now r = Inr (r', ev, b)"
  shows "settled env now r'"
  using process_cr_idem[OF assms] by (simp add: settled_def)

lemma settled_uncommitted:
  assumes "process_cr env now r = Inr (r', ev, False)"
  shows "settled env now r"
  using process_cr_events[OF assms] assms by (simp add: settled_def)

lemma stored_loop_shape:
  "list_all (settled env now) com \<Longrightarrow> list_all (settled env now) ses \<Longrightarrow>
   \<exists>cs tail. stored (sweep_loop env now com ses evs rows) = cs @ tail
      \<and> list_all (settled env now) cs \<and> stops_at env now tail"
proof (induction rows arbitrary: com ses evs)
  case Nil
  have "stored (sweep_loop env now com ses evs []) = com @ []" by simp
  moreover have "stops_at env now []" by (simp add: stops_at_def)
  ultimately show ?case using Nil.prems(1) by blast
next
  case (Cons r rest)
  show ?case
  proof (cases "is_active_cr r")
    case False
    then have s: "settled env now r" by (simp add: settled_def)
    have "list_all (settled env now) (com @ [r])" "list_all (settled env now) (ses @ [r])"
      using Cons.prems s by simp_all
    from Cons.IH[OF this, of evs] False show ?thesis by simp
  next
    case True
    show ?thesis
    proof (cases "process_cr env now r")
      case (Inl e)
      have "stored (sweep_loop env now com ses evs (r # rest)) = com @ (r # rest)"
        using True Inl by simp
      moreover have "stops_at env now (r # rest)"
        using True Inl by (simp add: stops_at_def)
      ultimately show ?thesis using Cons.prems(1) by blast
    next
      case (Inr x)
      obtain r' new b where x: "x = (r', new, b)" by (cases x) auto
      have p: "process_cr env now r = Inr (r', new, b)" using Inr x by simp
      have s': "settled env now r'" by (rule settled_session[OF p])
      show ?thesis
      proof (cases b)
        case True
        have "list_all (settled env now) (ses @ [r'])"
          using Cons.prems s' by simp
        from Cons.IH[OF this this, of "evs @ new"] \<open>is_active_cr r\<close> p True
        show ?thesis by simp
      next
        case False
        from p False have "process_cr env now r = Inr (r', new, False)" by simp
        then have "settled env now r" by (rule settled_uncommitted)
        then have "list_all (settled env now) (com @ [r])" "list_all (settled env now) (ses @ [r'])"
          using Cons.prems s' by simp_all
        from Cons.IH[OF this, of "evs @ new"] \<open>is_active_cr r\<close> p False
        show ?thesis by simp
      qed
    qed
  qed
qed

lemma settled_rows_fire_nothing:
  "list_all (settled env now) cs \<Longrightarrow> stops_at env now tail \<Longrightarrow>
   fired (check_sla_deadlines env now (cs @ tail)) = []"
proof (induction cs)
  case Nil
  then show ?case
    by (cases tail) (auto simp: sweep_events_Nil sweep_events_Cons stops_at_def isl_def)
next
  case (Cons c cs)
  from Cons.prems(1) have c: "settled env now c" and cs: "list_all (settled env now) cs" by simp_all
  have ih: "fired (check_sla_deadlines env now (cs @ tail)) = []"
    by (rule Cons.IH[OF cs Cons.prems(2)])
  show ?case
  proof (cases "is_active_cr c")
    case False
    then show ?thesis using ih by (simp add: sweep_events_Cons)
  next
    case True
    with c show ?thesis using ih
      by (auto simp: settled_def sweep_events_Cons split: sum.splits)
  qed
qed

lemma second_sweep_silent:
  "fired (check_sla_deadlines env now (stored (check_sla_deadlines env now table))) = []"
proof -
  have "\<exists>cs tail. stored (sweep_loop env now [] [] [] table) = cs @ tail
      \<and> list_all (settled env now) cs \<and> stops_at env now tail"
    by (rule stored_loop_shape) simp_all
  then obtain cs tail where "stored (check_sla_deadlines env now table) = cs @ tail"
    "list_all (settled env now) cs" "stops_at env now tail"
    by (auto simp: check_sla_deadlines_def)
  then show ?thesis using settled_rows_fire_nothing by simp
qed

lemma fired_rows_unflagged:
  "e \<in> set (fired (check_sla_deadlines env now rows)) \<Longrightarrow>
   \<exists>r \<in> set rows. cr_id r = event_cr e \<and> \<not> sla_warning_sent r"
proof (induction rows)
  case Nil
  then show ?case by (simp add: sweep_events_Nil)
next
  case (Cons r rest)
  show ?case
  proof (cases "is_active_cr r")
    case False
    with Cons show ?thesis by (auto simp: sweep_events_Cons)
  next
    case True
    show ?thesis
    proof (cases "process_cr env now r")
      case (Inl err)
      with True Cons.prems show ?thesis by (simp add: sweep_events_Cons)
    next
      case (Inr x)
      obtain r' new b where x: "x = (r', new, b)" by (cases x) auto
      have p: "process_cr env now r = Inr (r', new, b)" using Inr x by simp
      from Cons.prems True p
      have "e \<in> set new \<or> e \<in> set (fired (check_sla_deadlines env now rest))"
        by (simp add: sweep_events_Cons)
      then show ?thesis
      proof
        assume "e \<in> set new"
        with process_cr_events[OF p] have "event_cr e = cr_id r \<and> \<not> sla_warning_sent r"
          by auto
        then show ?thesis by simp
      next
        assume "e \<in> set (fired (check_sla_deadlines env now rest))"
        from Cons.IH[OF this] show ?thesis by auto
      qed
    qed
  qed
qed

lemma fired_distinct:
  "distinct (map cr_id rows) \<Longrightarrow> distinct (map event_cr (fired (check_sla_deadlines env now rows)))"
proof (induction rows)
  case Nil
  then show ?case by (simp add: sweep_events_Nil)
next
  case (Cons r rest)
  from Cons.prems have d: "distinct (map cr_id rest)" and n: "cr_id r \<notin> cr_id ` set rest" by simp_all
  have ih: "distinct (map event_cr (fired (check_sla_deadlines env now rest)))"
    by (rule Cons.IH[OF d])
  show ?case
  proof (cases "is_active_cr r")
    case False
    with ih show ?thesis by (simp add: sweep_events_Cons)
  next
    case True
    show ?thesis
    proof (cases "process_cr env now r")
      case (Inl err)
      with True show ?thesis by (simp add: sweep_events_Cons)
    next
      case (Inr x)
      obtain r' new b where x: "x = (r', new, b)" by (cases x) auto
      have p: "process_cr env now r = Inr (r', new, b)" using Inr x by simp
      have eq: "fired (check_sla_deadlines env now (r # rest))
                 = new @ fired (check_sla_deadlines env now rest)"
        using True p by (simp add: sweep_events_Cons)
      have other: "cr_id r \<notin> event_cr ` set (fired (check_sla_deadlines env now rest))"
      proof
        assume "cr_id r \<in> event_cr ` set (fired (check_sla_deadlines env now rest))"
        then obtain e where e: "e \<in> set (fired (check_sla_deadlines env now rest))"
          and id: "event_cr e = cr_id r"
          by auto
        from fired_rows_unflagged[OF e] obtain r0 where "r0 \<in> set rest" "cr_id r0 = event_cr e"
          by blast
        then have "cr_id r \<in> cr_id ` set rest" using id by (metis imageI)
        with n show False by simp
      qed
      from process_cr_events[OF p] show ?thesis
      proof
        assume "new = [] \<and> \<not> b"
        with eq ih show ?thesis by simp
      next
        assume "\<exists>k rc. new = [Fired k (cr_id r) rc] \<and> b \<and> \<not> sla_warning_sent r \<and> sla_warning_sent r'"
        then obtain k rc where "new = [Fired k (cr_id r) rc]" by blast
        with eq ih other show ?thesis by simp
      qed
    qed
  qed
qed

lemma flags_kept_refl: "flags_kept r r"
  by (simp add: flags_kept_def)

lemma flags_kept_trans: "flags_kept a b \<Longrightarrow> flags_kept b c \<Longrightarrow> flags_kept a c"
  by (simp add: flags_kept_def)

lemma process_cr_flags_kept:
  "process_cr env now r = Inr (r', ev, b) \<Longrightarrow> flags_kept r r'"
  using process_cr_keeps[of env now r r' ev b] by (simp add: flags_kept_def)

lemma stored_loop_flags_kept:
  "list_all2 flags_kept pre com \<Longrightarrow> list_all2 flags_kept pre ses \<Longrightarrow>
   list_all2 flags_kept (pre @ rows) (stored (sweep_loop env now com ses evs rows))"
proof (induction rows arbitrary: pre com ses evs)
  case Nil
  then show ?case by simp
next
  case (Cons r rest)
  have one: "list_all2 flags_kept [r] [r]" by (simp add: flags_kept_refl)
  have keep: "list_all2 flags_kept (pre @ [r]) (com @ [r])"
    by (rule list_all2_appendI[OF Cons.prems(1) one])
  show ?case
  proof (cases "is_active_cr r")
    case False
    have "list_all2 flags_kept (pre @ [r]) (ses @ [r])"
      by (rule list_all2_appendI[OF Cons.prems(2) one])
    from Cons.IH[OF keep this, of evs] False show ?thesis by simp
  next
    case True
    show ?thesis
    proof (cases "process_cr env now r")
      case (Inl err)
      have "list_all2 flags_kept (r # rest) (r # rest)"
        by (simp add: list_all2_refl flags_kept_refl)
      from list_all2_appendI[OF Cons.prems(1) this] True Inl show ?thesis by simp
    next
      case (Inr x)
      obtain r' new b where x: "x = (r', new, b)" by (cases x) auto
      have p: "process_cr env now r = Inr (r', new, b)" using Inr x by simp
      have "list_all2 flags_kept [r] [r']" using process_cr_flags_kept[OF p] by simp
      from list_all2_appendI[OF Cons.prems(2) this]
      have s: "list_all2 flags_kept (pre @ [r]) (ses @ [r'])" .
      show ?thesis
      proof (cases b)
        case True
        from Cons.IH[OF s s, of "evs @ new"] \<open>is_active_cr r\<close> p True show ?thesis by simp
      next
        case False
        from Cons.IH[OF keep s, of "evs @ new"] \<open>is_active_cr r\<close> p False show ?thesis by simp
      qed
    qed
  qed
qed

lemma sweep_flags_kept:
  "list_all2 flags_kept table (stored (check_sla_deadlines env now table))"
  using stored_loop_flags_kept[of "[]" "[]" "[]" table env now "[]"]
  by (simp add: check_sla_deadlines_def)

section \<open>The one-shot flags over time\<close>

lemma apply_call_flags:
  "cr_id (apply_call c cr) = cr_id cr
   \<and> is_sla_breached (apply_call c cr) = is_sla_breached cr
   \<and> sla_warning_sent (apply_call c cr) = sla_warning_sent cr"
  by (cases c)
     (simp_all add: submit_def approve_def reject_def start_implementation_def
        complete_implementation_def close_def rollback_def)

lemma sys_step_flags_kept:
  "list_all2 flags_kept table (fst (sys_step a (table, evs)))"
proof (cases a)
  case (Sweep env now)
  then show ?thesis by (simp add: sweep_flags_kept)
next
  case (Call i c)
  have r: "list_all2 flags_kept table table"
    by (simp add: list_all2_refl flags_kept_refl)
  show ?thesis
  proof (cases "i < length table")
    case True
    have "flags_kept (table ! i) (apply_call c (table ! i))"
      using apply_call_flags[of c "table ! i"] by (simp add: flags_kept_def)
    from list_all2_update_cong[OF r this, of i] Call True show ?thesis by simp
  next
    case False
    with Call r show ?thesis by simp
  qed
qed

lemma run_history_flags_kept:
  "list_all2 flags_kept table (fst (run_history acts (table, evs)))"
proof (induction acts arbitrary: table evs)
  case Nil
  show ?case by (simp add: list_all2_refl flags_kept_refl)
next
  case (Cons a acts)
  obtain table' evs' where s: "sys_step a (table, evs) = (table', evs')"
    by (cases "sys_step a (table, evs)")
  have 1: "list_all2 flags_kept table table'"
    using sys_step_flags_kept[of table a evs] s by simp
  have 2: "list_all2 flags_kept table' (fst (run_history acts (table', evs')))"
    by (rule Cons.IH)
  have "list_all2 flags_kept table (fst (run_history acts (table', evs')))"
    by (rule list_all2_trans[OF _ 1 2]) (rule flags_kept_trans)
  then show ?case using s by simp
qed

lemmas sweep_eval = check_sla_deadlines_def process_cr_def check_sla_breach_def
  is_deadline_warning_needed_def time_until_deadline_def send_sla_breach_email_def
  send_sla_warning_email_def is_active_cr_def active_statuses_def example_table_def

lemma flagged_in_append: "flagged_in (xs @ ys) e = (flagged_in xs e \<or> flagged_in ys e)"
  by (simp add: flagged_in_def list_ex_append)

lemma flagged_in_single: "flagged_in [c] e = (cr_id c = event_cr e \<and> sla_warning_sent c)"
  by (simp add: flagged_in_def)

lemma fired_loop_flagged:
  "\<forall>e \<in> set evs. flagged_in com e \<Longrightarrow> \<forall>e \<in> set evs. flagged_in ses e \<Longrightarrow>
   \<forall>e \<in> set (fired (sweep_loop env now com ses evs rows)).
      flagged_in (stored (sweep_loop env now com ses evs rows)) e"
proof (induction rows arbitrary: com ses evs)
  case Nil
  then show ?case by simp
next
  case (Cons r rest)
  show ?case
  proof (cases "is_active_cr r")
    case False
    have "\<forall>e \<in> set evs. flagged_in (com @ [r]) e" "\<forall>e \<in> set evs. flagged_in (ses @ [r]) e"
      using Cons.prems by (simp_all add: flagged_in_append)
    from Cons.IH[OF this] False show ?thesis by simp
  next
    case True
    show ?thesis
    proof (cases "process_cr env now r")
      case (Inl err)
      with True Cons.prems(1) show ?thesis by (simp add: flagged_in_append)
    next
      case (Inr x)
      obtain r' new b where x: "x = (r', new, b)" by (cases x) auto
      have p: "process_cr env now r = Inr (r', new, b)" using Inr x by simp
      have id: "cr_id r' = cr_id r" using process_cr_keeps[OF p] by simp
      have new: "\<forall>e \<in> set new. flagged_in [r'] e"
        using process_cr_events[OF p] id by (auto simp: flagged_in_single)
      have ses': "\<forall>e \<in> set (evs @ new). flagged_in (ses @ [r']) e"
        using Cons.prems(2) new by (auto simp: flagged_in_append)
      show ?thesis
      proof (cases b)
        case True
        from Cons.IH[OF ses' ses'] \<open>is_active_cr r\<close> p True show ?thesis by simp
      next
        case False
        with process_cr_events[OF p] have "new = []" by auto
        then have "\<forall>e \<in> set (evs @ new). flagged_in (com @ [r]) e"
          using Cons.prems(1) by (simp add: flagged_in_append)
        from Cons.IH[OF this ses'] \<open>is_active_cr r\<close> p False show ?thesis by simp
      qed
    qed
  qed
qed

lemma sweep_fired_flagged:
  "e \<in> set (fired (check_sla_deadlines env now table)) \<Longrightarrow>
   flagged_in (stored (check_sla_deadlines env now table)) e"
  using fired_loop_flagged[of "[]" "[]" "[]" env now table]
  by (simp add: check_sla_deadlines_def)

lemma flagged_in_kept:
  "list_all2 flags_kept xs ys \<Longrightarrow> flagged_in xs e \<Longrightarrow> flagged_in ys e"
  by (induction rule: list_all2_induct) (auto simp: flagged_in_def flags_kept_def)

lemma ids_kept:
  "list_all2 flags_kept xs ys \<Longrightarrow> map cr_id ys = map cr_id xs"
  by (induction rule: list_all2_induct) (auto simp: flags_kept_def)

lemma unique_by_key:
  "distinct (map f xs) \<Longrightarrow> x \<in> set xs \<Longrightarrow> y \<in> set xs \<Longrightarrow> f x = f y \<Longrightarrow> x = y"
  by (metis distinct_map inj_onD)

lemma flagged_in_row:
  "flagged_in rows e \<Longrightarrow> \<exists>c \<in> set rows. cr_id c = event_cr e \<and> sla_warning_sent c"
  by (simp add: flagged_in_def list_ex_iff)

lemma sys_step_invariant:
  assumes ids: "distinct (map cr_id table)"
    and evs: "distinct (map event_cr evs)"
    and fl: "\<forall>e \<in> set evs. flagged_in table e"
  shows "distinct (map cr_id (fst (sys_step a (table, evs))))
       \<and> distinct (map event_cr (snd (sys_step a (table, evs))))
       \<and> (\<forall>e \<in> set (snd (sys_step a (table, evs))). flagged_in (fst (sys_step a (table, evs))) e)"
proof -
  have k: "list_all2 flags_kept table (fst (sys_step a (table, evs)))"
    by (rule sys_step_flags_kept)
  have 1: "distinct (map cr_id (fst (sys_step a (table, evs))))"
    using ids_kept[OF k] ids by simp
  have old: "\<forall>e \<in> set evs. flagged_in (fst (sys_step a (table, evs))) e"
    using fl flagged_in_kept[OF k] by blast
  show ?thesis
  proof (cases a)
    case (Call i c)
    then have "snd (sys_step a (table, evs)) = evs" by simp
    with 1 evs old show ?thesis by simp
  next
    case (Sweep env now)
    let ?new = "fired (check_sla_deadlines env now table)"
    have s: "snd (sys_step a (table, evs)) = evs @ ?new"
      and f: "fst (sys_step a (table, evs)) = stored (check_sla_deadlines env now table)"
      using Sweep by simp_all
    have dn: "distinct (map event_cr ?new)" by (rule fired_distinct[OF ids])
    have disj: "event_cr ` set evs \<inter> event_cr ` set ?new = {}"
    proof (rule ccontr)
      assume "event_cr ` set evs \<inter> event_cr ` set ?new \<noteq> {}"
      then obtain e e' where e: "e \<in> set evs" and e': "e' \<in> set ?new"
        and same: "event_cr e = event_cr e'" by auto
      from fl e obtain c where c: "c \<in> set table" "cr_id c = event_cr e" "sla_warning_sent c"
        using flagged_in_row by blast
      from fired_rows_unflagged[OF e'] obtain r where r: "r \<in> set table" "cr_id r = event_cr e'"
        "\<not> sla_warning_sent r" by blast
      have "c = r" using unique_by_key[OF ids c(1) r(1)] c(2) r(2) same by simp
      with c(3) r(3) show False by simp
    qed
    have 2: "distinct (map event_cr (evs @ ?new))"
      using evs dn disj by simp
    have 3: "\<forall>e \<in> set (evs @ ?new). flagged_in (stored (check_sla_deadlines env now table)) e"
      using old f sweep_fired_flagged[of _ env now table] by auto
    from 1 2 3 s f show ?thesis by simp
  qed
qed

lemma run_history_invariant:
  "distinct (map cr_id table) \<Longrightarrow> distinct (map event_cr evs) \<Longrightarrow>
   \<forall>e \<in> set evs. flagged_in table e \<Longrightarrow>
   distinct (map event_cr (snd (run_history acts (table, evs))))"
proof (induction acts arbitrary: table evs)
  case Nil
  then show ?case by simp
next
  case (Cons a acts)
  obtain table' evs' where s: "sys_step a (table, evs) = (table', evs')"
    by (cases "sys_step a (table, evs)")
  from sys_step_invariant[OF Cons.prems, of a] s
  have "distinct (map cr_id table')" "distinct (map event_cr evs')" "\<forall>e \<in> set evs'. flagged_in table' e"
    by simp_all
  from Cons.IH[OF this] s show ?case by simp
qed

section \<open>Properties of the sweep\<close>

text \<open>
  C1. Run the sweep at a clock reading, and run it again at the same reading on the rows
  the first run left in the database: the second run completes no send call at all. And
  when the ids of the rows are distinct (they are the primary key), the send calls of both
  runs together name every change request at most once, so there is at most one
  notification for a change request and kind.
\<close>

theorem sweep_twice_fires_once:
  "fired (check_sla_deadlines env now (stored (check_sla_deadlines env now table))) = []
   \<and> (distinct (map cr_id table) \<longrightarrow>
        distinct (map event_cr
          (fired (check_sla_deadlines env now table)
           @ fired (check_sla_deadlines env now (stored (check_sla_deadlines env now table))))))"
  using second_sweep_silent[of env now table] fired_distinct[of table env now] by simp

theorem sweep_twice_fires_once_witness:
  "distinct (map cr_id example_table)
   \<and> fired (check_sla_deadlines \<lparr>admins = []\<rparr> (3 * hour_us) example_table)
       = [Fired Warning 1 [1], Fired Breach 2 []]
   \<and> fired (check_sla_deadlines \<lparr>admins = []\<rparr> (3 * hour_us)
        (stored (check_sla_deadlines \<lparr>admins = []\<rparr> (3 * hour_us) example_table))) = []"
proof -
  have d: "distinct (map cr_id example_table)"
    by (simp add: example_table_def example_cr_def)
  have f: "fired (check_sla_deadlines \<lparr>admins = []\<rparr> (3 * hour_us) example_table)
       = [Fired Warning 1 [1], Fired Breach 2 []]"
    by (simp add: sweep_eval example_defs)
  from d f sweep_twice_fires_once[of "\<lparr>admins = []\<rparr>" "3 * hour_us" example_table]
  show ?thesis by simp
qed

text \<open>
  C5. No transition method changes \<^verbatim>\<open>is_sla_breached\<close> or
  \<^verbatim>\<open>sla_warning_sent\<close>; the loop body of the sweep leaves an object with every
  flag that was set still set; and after one sweep, or after any history of sweeps and
  method calls, every row of the table has its id and every flag it had before.
\<close>

theorem sla_flags_monotone:
  "is_sla_breached (apply_call c cr) = is_sla_breached cr
   \<and> sla_warning_sent (apply_call c cr) = sla_warning_sent cr
   \<and> (process_cr env now cr = Inr (cr', new, b) \<longrightarrow> flags_kept cr cr')
   \<and> list_all2 flags_kept table (stored (check_sla_deadlines env now table))
   \<and> list_all2 flags_kept table (fst (run_history acts (table, evs)))"
  using apply_call_flags[of c cr] process_cr_flags_kept[of env now cr cr' new b]
    sweep_flags_kept[of table env now] run_history_flags_kept[of table acts evs]
  by simp

theorem sla_flags_monotone_witness:
  "map sla_warning_sent (fst (run_history
      [Sweep \<lparr>admins = []\<rparr> (3 * hour_us),
       Call 1 CompleteImplementation,
       Sweep \<lparr>admins = []\<rparr> (30 * hour_us)] (example_table, []))) = [True, True, False]
   \<and> map is_sla_breached (fst (run_history
      [Sweep \<lparr>admins = []\<rparr> (3 * hour_us),
       Call 1 CompleteImplementation,
       Sweep \<lparr>admins = []\<rparr> (30 * hour_us)] (example_table, []))) = [False, True, False]
   \<and> list_all2 flags_kept example_table (fst (run_history
      [Sweep \<lparr>admins = []\<rparr> (3 * hour_us),
       Call 1 CompleteImplementation,
       Sweep \<lparr>admins = []\<rparr> (30 * hour_us)] (example_table, [])))"
  using sla_flags_monotone[of CompleteImplementation "example_cr 1 APPROVED None" "\<lparr>admins = []\<rparr>" 0
      "example_cr 1 APPROVED None" "[]" False example_table
      "[Sweep \<lparr>admins = []\<rparr> (3 * hour_us), Call 1 CompleteImplementation,
        Sweep \<lparr>admins = []\<rparr> (30 * hour_us)]" "[]"]
  by (simp add: sweep_eval example_defs complete_implementation_def)

text \<open>
  C10. In a table whose ids are distinct, over any history of sweeps (each with its own
  clock reading and administrators) and method calls, the completed send calls name every
  change request at most once: one warning or one breach notification, never both. In
  particular a change request that got the warning gets no breach notification later.
  A send call that raises has sent no mail and is not counted.
\<close>

theorem one_sla_notification_per_cr:
  "distinct (map cr_id table) \<Longrightarrow>
   distinct (map event_cr (snd (run_history acts (table, []))))
   \<and> (Fired Warning i rs \<in> set (snd (run_history acts (table, []))) \<longrightarrow>
        Fired Breach i rs' \<notin> set (snd (run_history acts (table, []))))"
proof -
  assume ids: "distinct (map cr_id table)"
  let ?evs = "snd (run_history acts (table, []))"
  have d: "distinct (map event_cr ?evs)"
    using run_history_invariant[OF ids, of "[]" acts] by simp
  have "Fired Breach i rs' \<notin> set ?evs" if w: "Fired Warning i rs \<in> set ?evs"
  proof
    assume br: "Fired Breach i rs' \<in> set ?evs"
    have "Fired Warning i rs = Fired Breach i rs'"
      by (rule unique_by_key[OF d w br]) simp
    then show False by simp
  qed
  with d show ?thesis by blast
qed

theorem one_sla_notification_per_cr_witness:
  "distinct (map cr_id example_table)
   \<and> snd (run_history
      [Sweep \<lparr>admins = []\<rparr> (3 * hour_us),
       Call 1 CompleteImplementation,
       Sweep \<lparr>admins = []\<rparr> (30 * hour_us),
       Sweep \<lparr>admins = [10]\<rparr> (31 * hour_us)] (example_table, []))
     = [Fired Warning 1 [1], Fired Breach 2 []]
   \<and> Fired Breach 1 [] \<notin> set (snd (run_history
      [Sweep \<lparr>admins = []\<rparr> (3 * hour_us),
       Call 1 CompleteImplementation,
       Sweep \<lparr>admins = []\<rparr> (30 * hour_us),
       Sweep \<lparr>admins = [10]\<rparr> (31 * hour_us)] (example_table, [])))"
proof -
  have d: "distinct (map cr_id example_table)"
    by (simp add: example_table_def example_cr_def)
  have e: "snd (run_history
      [Sweep \<lparr>admins = []\<rparr> (3 * hour_us),
       Call 1 CompleteImplementation,
       Sweep \<lparr>admins = []\<rparr> (30 * hour_us),
       Sweep \<lparr>admins = [10]\<rparr> (31 * hour_us)] (example_table, []))
     = [Fired Warning 1 [1], Fired Breach 2 []]"
    by (simp add: sweep_eval example_defs complete_implementation_def)
  from one_sla_notification_per_cr[OF d, of
      "[Sweep \<lparr>admins = []\<rparr> (3 * hour_us), Call 1 CompleteImplementation,
        Sweep \<lparr>admins = []\<rparr> (30 * hour_us), Sweep \<lparr>admins = [10]\<rparr> (31 * hour_us)]" 1 "[1]" "[]"]
    d e show ?thesis by simp
qed

section \<open>Errors in the sweep\<close>

text \<open>When the loop body raises: the two places where naive and aware values meet.\<close>

lemma sweep_loop_prefix:
  "\<forall>p \<in> set pre. is_active_cr p \<longrightarrow> \<not> isl (process_cr env now p) \<Longrightarrow>
   \<exists>com' ses' evs'. \<forall>tail.
      sweep_loop env now com ses evs (pre @ tail) = sweep_loop env now com' ses' evs' tail"
proof (induction pre arbitrary: com ses evs)
  case Nil
  show ?case by auto
next
  case (Cons r rest)
  from Cons.prems have rest: "\<forall>p \<in> set rest. is_active_cr p \<longrightarrow> \<not> isl (process_cr env now p)"
    by simp
  show ?case
  proof (cases "is_active_cr r")
    case False
    from Cons.IH[OF rest, of "com @ [r]" "ses @ [r]" evs] False show ?thesis by simp
  next
    case True
    with Cons.prems have "\<not> isl (process_cr env now r)" by simp
    then obtain r' new b where p: "process_cr env now r = Inr (r', new, b)"
      by (cases "process_cr env now r") auto
    show ?thesis
    proof (cases b)
      case True
      from Cons.IH[OF rest, of "ses @ [r']" "ses @ [r']" "evs @ new"] \<open>is_active_cr r\<close> p True
      show ?thesis by simp
    next
      case False
      from Cons.IH[OF rest, of "com @ [r]" "ses @ [r']" "evs @ new"] \<open>is_active_cr r\<close> p False
      show ?thesis by simp
    qed
  qed
qed

lemma process_cr_raises:
  "process_cr env now r = Inl e \<longleftrightarrow>
     e = TypeError \<and> status r \<noteq> CLOSED \<and> \<not> is_sla_breached r
     \<and> (\<exists>d. implementation_deadline r = Some d
            \<and> (\<not> tz_aware d \<or> (micros d < now \<and> \<not> sla_warning_sent r \<and> admins env \<noteq> [])))"
proof (cases "implementation_deadline r")
  case None
  then show ?thesis
    by (simp add: process_cr_def check_sla_breach_def is_deadline_warning_needed_def
          time_until_deadline_def)
next
  case (Some d)
  show ?thesis
  proof (cases "status r = CLOSED \<or> is_sla_breached r")
    case True
    then show ?thesis using Some
      by (auto simp: process_cr_def check_sla_breach_def is_deadline_warning_needed_def)
  next
    case False
    show ?thesis
    proof (cases "tz_aware d")
      case False
      with Some \<open>\<not> (status r = CLOSED \<or> is_sla_breached r)\<close> show ?thesis
        by (cases e) (simp_all add: process_cr_def check_sla_breach_def)
    next
      case True
      with Some \<open>\<not> (status r = CLOSED \<or> is_sla_breached r)\<close> show ?thesis
        by (cases e)
           (simp_all add: process_cr_def check_sla_breach_def send_sla_breach_email_def
              is_deadline_warning_needed_def time_until_deadline_def)
    qed
  qed
qed

lemma processed_crs_prefix:
  "\<forall>p \<in> set pre. is_active_cr p \<longrightarrow> \<not> isl (process_cr env now p) \<Longrightarrow>
   processed_crs env now (pre @ tail)
     = map cr_id (filter is_active_cr pre) @ processed_crs env now tail"
proof (induction pre)
  case Nil
  show ?case by simp
next
  case (Cons p pre)
  from Cons.prems have rest: "\<forall>q \<in> set pre. is_active_cr q \<longrightarrow> \<not> isl (process_cr env now q)"
    by simp
  show ?case
  proof (cases "is_active_cr p")
    case False
    with Cons.IH[OF rest] show ?thesis by simp
  next
    case True
    with Cons.prems have "\<not> isl (process_cr env now p)" by simp
    then obtain x where "process_cr env now p = Inr x"
      by (cases "process_cr env now p") auto
    with True Cons.IH[OF rest] show ?thesis by simp
  qed
qed

text \<open>
  C3, as stated, fails. Two selected rows in the order of their ids, both with a naive
  deadline, as the database returns it. Comparing the deadline of change request 1 with the
  aware clock reading raises; the one handler around the loop logs the error and the run
  is over. Change request 2 is selected by the query as well, and its loop body is never
  entered.
\<close>

theorem sweep_aborts_at_failing_cr:
  "process_cr \<lparr>admins = [10]\<rparr> (3 * hour_us) (example_cr 1 APPROVED (Some (naive hour_us)))
     = Inl TypeError
   \<and> logged_error (check_sla_deadlines \<lparr>admins = [10]\<rparr> (3 * hour_us)
      [example_cr 1 APPROVED (Some (naive hour_us)),
       example_cr 2 IN_PROGRESS (Some (naive (26 * hour_us)))]) = Some TypeError
   \<and> map cr_id (filter is_active_cr
      [example_cr 1 APPROVED (Some (naive hour_us)),
       example_cr 2 IN_PROGRESS (Some (naive (26 * hour_us)))]) = [1, 2]
   \<and> processed_crs \<lparr>admins = [10]\<rparr> (3 * hour_us)
      [example_cr 1 APPROVED (Some (naive hour_us)),
       example_cr 2 IN_PROGRESS (Some (naive (26 * hour_us)))] = [1]
   \<and> fired (check_sla_deadlines \<lparr>admins = [10]\<rparr> (3 * hour_us)
      [example_cr 1 APPROVED (Some (naive hour_us)),
       example_cr 2 IN_PROGRESS (Some (naive (26 * hour_us)))]) = []
   \<and> stored (check_sla_deadlines \<lparr>admins = [10]\<rparr> (3 * hour_us)
      [example_cr 1 APPROVED (Some (naive hour_us)),
       example_cr 2 IN_PROGRESS (Some (naive (26 * hour_us)))])
      = [example_cr 1 APPROVED (Some (naive hour_us)),
         example_cr 2 IN_PROGRESS (Some (naive (26 * hour_us)))]"
  by (simp add: sweep_eval example_defs)

text \<open>
  C3, amended. When the selected rows of \<open>pre\<close> are processed without error and
  processing the selected row \<open>r\<close> raises \<open>e\<close>, the run logs \<open>e\<close> and ends
  there: the rows before \<open>r\<close> are stored exactly as a sweep over them alone stores
  them, with the same send calls; \<open>r\<close> and all rows after it are stored unchanged;
  and the loop body has been entered for the selected rows of \<open>pre\<close> and for
  \<open>r\<close>, for no row after it.
\<close>

theorem sweep_stops_at_first_error:
  assumes "\<forall>p \<in> set pre. is_active_cr p \<longrightarrow> \<not> isl (process_cr env now p)"
    and "is_active_cr r" and "process_cr env now r = Inl e"
  shows "logged_error (check_sla_deadlines env now (pre @ r # rest)) = Some e
       \<and> stored (check_sla_deadlines env now (pre @ r # rest))
           = stored (check_sla_deadlines env now pre) @ r # rest
       \<and> fired (check_sla_deadlines env now (pre @ r # rest))
           = fired (check_sla_deadlines env now pre)
       \<and> logged_error (check_sla_deadlines env now pre) = None
       \<and> processed_crs env now (pre @ r # rest)
           = map cr_id (filter is_active_cr pre) @ [cr_id r]"
proof -
  from sweep_loop_prefix[OF assms(1), of "[]" "[]" "[]"] obtain com' ses' evs'
    where c: "\<And>tail. sweep_loop env now [] [] [] (pre @ tail) = sweep_loop env now com' ses' evs' tail"
    by blast
  have 1: "check_sla_deadlines env now pre = \<lparr>stored = com', fired = evs', logged_error = None\<rparr>"
    using c[of "[]"] by (simp add: check_sla_deadlines_def)
  have 2: "check_sla_deadlines env now (pre @ r # rest)
       = \<lparr>stored = com' @ r # rest, fired = evs', logged_error = Some e\<rparr>"
    using c[of "r # rest"] assms(2,3) by (simp add: check_sla_deadlines_def)
  have 3: "processed_crs env now (pre @ r # rest)
       = map cr_id (filter is_active_cr pre) @ [cr_id r]"
    using processed_crs_prefix[OF assms(1), of "r # rest"] assms(2,3) by simp
  show ?thesis by (simp add: 1 2 3)
qed

text \<open>
  Rows with naive deadlines, in the order of their ids: an Implemented row already marked
  as breached (its body runs and changes nothing), a draft, an Approved row whose body
  raises, and an InProgress row after it.
\<close>

theorem sweep_stops_at_first_error_witness:
  "logged_error (check_sla_deadlines \<lparr>admins = [10]\<rparr> (3 * hour_us)
      ([(example_cr 1 IMPLEMENTED (Some (naive hour_us)))\<lparr>is_sla_breached := True\<rparr>,
        example_cr 2 DRAFT None]
        @ example_cr 3 APPROVED (Some (naive (26 * hour_us)))
        # [example_cr 4 IN_PROGRESS (Some (naive (40 * hour_us)))])) = Some TypeError
   \<and> fired (check_sla_deadlines \<lparr>admins = [10]\<rparr> (3 * hour_us)
      ([(example_cr 1 IMPLEMENTED (Some (naive hour_us)))\<lparr>is_sla_breached := True\<rparr>,
        example_cr 2 DRAFT None]
        @ example_cr 3 APPROVED (Some (naive (26 * hour_us)))
        # [example_cr 4 IN_PROGRESS (Some (naive (40 * hour_us)))])) = []
   \<and> stored (check_sla_deadlines \<lparr>admins = [10]\<rparr> (3 * hour_us)
      ([(example_cr 1 IMPLEMENTED (Some (naive hour_us)))\<lparr>is_sla_breached := True\<rparr>,
        example_cr 2 DRAFT None]
        @ example_cr 3 APPROVED (Some (naive (26 * hour_us)))
        # [example_cr 4 IN_PROGRESS (Some (naive (40 * hour_us)))]))
      = [(example_cr 1 IMPLEMENTED (Some (naive hour_us)))\<lparr>is_sla_breached := True\<rparr>,
         example_cr 2 DRAFT None,
         example_cr 3 APPROVED (Some (naive (26 * hour_us))),
         example_cr 4 IN_PROGRESS (Some (naive (40 * hour_us)))]
   \<and> processed_crs \<lparr>admins = [10]\<rparr> (3 * hour_us)
      ([(example_cr 1 IMPLEMENTED (Some (naive hour_us)))\<lparr>is_sla_breached := True\<rparr>,
        example_cr 2 DRAFT None]
        @ example_cr 3 APPROVED (Some (naive (26 * hour_us)))
        # [example_cr 4 IN_PROGRESS (Some (naive (40 * hour_us)))]) = [1, 3]"
proof -
  have a: "\<forall>p \<in> set [(example_cr 1 IMPLEMENTED (Some (naive hour_us)))\<lparr>is_sla_breached := True\<rparr>,
        example_cr 2 DRAFT None].
      is_active_cr p \<longrightarrow> \<not> isl (process_cr \<lparr>admins = [10]\<rparr> (3 * hour_us) p)"
    by (simp add: sweep_eval example_defs)
  have b: "is_active_cr (example_cr 3 APPROVED (Some (naive (26 * hour_us))))"
    by (simp add: sweep_eval example_defs)
  have c: "process_cr \<lparr>admins = [10]\<rparr> (3 * hour_us)
        (example_cr 3 APPROVED (Some (naive (26 * hour_us)))) = Inl TypeError"
    by (simp add: sweep_eval example_defs)
  have d: "check_sla_deadlines \<lparr>admins = [10]\<rparr> (3 * hour_us)
      [(example_cr 1 IMPLEMENTED (Some (naive hour_us)))\<lparr>is_sla_breached := True\<rparr>,
       example_cr 2 DRAFT None]
     = \<lparr>stored = [(example_cr 1 IMPLEMENTED (Some (naive hour_us)))\<lparr>is_sla_breached := True\<rparr>,
                  example_cr 2 DRAFT None],
        fired = [], logged_error = None\<rparr>"
    by (simp add: sweep_eval example_defs)
  have f: "map cr_id (filter is_active_cr
      [(example_cr 1 IMPLEMENTED (Some (naive hour_us)))\<lparr>is_sla_breached := True\<rparr>,
       example_cr 2 DRAFT None]) = [1]"
    by (simp add: sweep_eval example_defs)
  note t = sweep_stops_at_first_error[OF a b c,
      of "[example_cr 4 IN_PROGRESS (Some (naive (40 * hour_us)))]", unfolded d f]
  from t show ?thesis by (simp add: example_cr_def)
qed

section \<open>CR numbers\<close>

text \<open>The recursion of \<^const>\<open>dec\<close> is unfolded by hand, one digit at a time.\<close>

declare dec.simps [simp del]

lemma digit_val_digit_char: "d < 10 \<Longrightarrow> digit_val (digit_char d) = d"
proof -
  assume "d < 10"
  then have "d \<in> {0, 1, 2, 3, 4, 5, 6, 7, 8, 9}" by auto
  then show ?thesis
    by (auto simp: digit_val_def digit_char_def)
qed

lemma undec_snoc: "undec (s @ [c]) = 10 * undec s + digit_val c"
  by (simp add: undec_def)

lemma undec_dec: "undec (dec n) = n"
proof (induction n rule: dec.induct)
  case (1 n)
  show ?case
  proof (cases "n < 10")
    case True
    then show ?thesis
      by (subst dec.simps) (simp add: undec_def digit_val_digit_char)
  next
    case False
    with 1 have "undec (dec (n div 10)) = n div 10" by simp
    with False show ?thesis
      by (subst dec.simps) (simp add: undec_snoc digit_val_digit_char)
  qed
qed

lemma undec_zeros: "undec (replicate k (CHR ''0'') @ s) = undec s"
proof -
  have z: "digit_val (CHR ''0'') = 0" by (simp add: digit_val_def)
  have "foldl (\<lambda>acc c. 10 * acc + digit_val c) 0 (replicate j (CHR ''0'')) = 0" for j
    by (induction j) (simp_all add: z)
  then show ?thesis by (simp add: undec_def)
qed

lemma undec_format_04d: "undec (format_04d n) = n"
  by (simp add: format_04d_def zfill_def undec_zeros undec_dec)

lemma format_04d_inj: "format_04d a = format_04d b \<Longrightarrow> a = b"
  by (metis undec_format_04d)

lemma length_dec: "0 < m \<Longrightarrow> n < 10 ^ m \<Longrightarrow> length (dec n) \<le> m"
proof (induction m arbitrary: n)
  case 0
  then show ?case by simp
next
  case (Suc m)
  show ?case
  proof (cases "n < 10")
    case True
    then show ?thesis by (subst dec.simps) simp
  next
    case False
    then have m: "0 < m" using Suc.prems by (cases m) auto
    have "n div 10 < 10 ^ m" using Suc.prems(2) by (simp add: less_mult_imp_div_less mult.commute)
    from Suc.IH[OF m this] False show ?thesis by (subst dec.simps) simp
  qed
qed

lemma length_format_04d: "n \<le> 9999 \<Longrightarrow> length (format_04d n) = 4"
proof -
  assume "n \<le> 9999"
  then have "n < 10 ^ 4" by simp
  then have "length (dec n) \<le> 4" by (intro length_dec) simp_all
  then show ?thesis by (simp add: format_04d_def zfill_def)
qed

lemma like_prefix_self: "like_prefix p (p @ s)"
  by (simp add: like_prefix_def)

lemma generate_cr_number_count:
  "generate_cr_number today numbers =
     ''CR-'' @ today @ ''-'' @ format_04d (length (filter (like_prefix (''CR-'' @ today)) numbers) + 1)"
  by (simp add: generate_cr_number_def Let_def)

lemma create_crs_from:
  "length (filter (like_prefix (''CR-'' @ today)) numbers) = c \<Longrightarrow>
   create_crs today n numbers =
     numbers @ map (\<lambda>k. ''CR-'' @ today @ ''-'' @ format_04d k) [Suc c ..< Suc c + n]"
proof (induction n arbitrary: numbers c)
  case 0
  show ?case by simp
next
  case (Suc n)
  let ?g = "generate_cr_number today numbers"
  have g: "?g = ''CR-'' @ today @ ''-'' @ format_04d (Suc c)"
    using Suc.prems by (simp add: generate_cr_number_count)
  have "like_prefix (''CR-'' @ today) ?g"
    unfolding g using like_prefix_self[of "''CR-'' @ today" "''-'' @ format_04d (Suc c)"] by simp
  then have "length (filter (like_prefix (''CR-'' @ today)) (numbers @ [?g])) = Suc c"
    using Suc.prems by simp
  from Suc.IH[OF this]
  have "create_crs today n (numbers @ [?g]) =
     (numbers @ [?g]) @ map (\<lambda>k. ''CR-'' @ today @ ''-'' @ format_04d k) [Suc (Suc c) ..< Suc (Suc c) + n]" .
  moreover have "[Suc c ..< Suc c + Suc n] = Suc c # [Suc (Suc c) ..< Suc (Suc c) + n]"
    by (simp add: upt_conv_Cons)
  ultimately show ?case using g by simp
qed

text \<open>
  C9. One caller creates \<open>n\<close> change requests on a day, storing each before it
  generates the next number, in a table that holds no number of that day yet. They get the
  numbers with the sequences 1 to \<open>n\<close> in the format \<^verbatim>\<open>04d\<close>, in this
  order, and no two are equal. The sequence reads back as the number it was made from and
  has exactly four digits up to 9999; and every generated number is the day's prefix, a
  hyphen, and the count of stored numbers with that prefix plus one.
\<close>

theorem cr_numbers_sequential:
  "\<forall>s \<in> set numbers. \<not> like_prefix (''CR-'' @ today) s \<Longrightarrow>
   create_crs today n numbers
     = numbers @ map (\<lambda>k. ''CR-'' @ today @ ''-'' @ format_04d k) [1 ..< Suc n]
   \<and> distinct (map (\<lambda>k. ''CR-'' @ today @ ''-'' @ format_04d k) [1 ..< Suc n])
   \<and> (\<forall>k \<in> set [1 ..< Suc n]. undec (format_04d k) = k \<and> (k \<le> 9999 \<longrightarrow> length (format_04d k) = 4))
   \<and> generate_cr_number today numbers' =
       ''CR-'' @ today @ ''-''
         @ format_04d (length (filter (like_prefix (''CR-'' @ today)) numbers') + 1)"
proof -
  assume none: "\<forall>s \<in> set numbers. \<not> like_prefix (''CR-'' @ today) s"
  then have "filter (like_prefix (''CR-'' @ today)) numbers = []"
    by (simp add: filter_empty_conv)
  then have c: "length (filter (like_prefix (''CR-'' @ today)) numbers) = 0" by simp
  have 1: "create_crs today n numbers
     = numbers @ map (\<lambda>k. ''CR-'' @ today @ ''-'' @ format_04d k) [1 ..< Suc n]"
    using create_crs_from[OF c, of n] by simp
  have "inj_on (\<lambda>k. ''CR-'' @ today @ ''-'' @ format_04d k) (set [1 ..< Suc n])"
    by (rule inj_onI) (simp add: format_04d_inj)
  then have 2: "distinct (map (\<lambda>k. ''CR-'' @ today @ ''-'' @ format_04d k) [1 ..< Suc n])"
    by (simp add: distinct_map)
  show ?thesis
    using 1 2 undec_format_04d length_format_04d generate_cr_number_count by blast
qed

lemmas number_eval = generate_cr_number_def like_prefix_def format_04d_def zfill_def digit_char_def

theorem cr_numbers_sequential_witness:
  "create_crs ''20250101'' 3 [''CR-20241231-0001'']
     = [''CR-20241231-0001'', ''CR-20250101-0001'', ''CR-20250101-0002'', ''CR-20250101-0003'']"
proof -
  have h: "\<forall>s \<in> set [''CR-20241231-0001'']. \<not> like_prefix (''CR-'' @ ''20250101'') s"
    by (simp add: like_prefix_def)
  have m: "map (\<lambda>k. ''CR-'' @ ''20250101'' @ ''-'' @ format_04d k) [1 ..< Suc 3]
      = [''CR-20250101-0001'', ''CR-20250101-0002'', ''CR-20250101-0003'']"
    by code_simp
  from cr_numbers_sequential[OF h, of 3 "[]"]
  have "create_crs ''20250101'' 3 [''CR-20241231-0001'']
     = [''CR-20241231-0001'']
       @ map (\<lambda>k. ''CR-'' @ ''20250101'' @ ''-'' @ format_04d k) [1 ..< Suc 3]"
    by (rule conjunct1)
  then show ?thesis unfolding m by simp
qed

end
